theory Spec2Isabelle
  imports Main "HOL-Library.Monad_Syntax"
begin

section \<open>Data model of \<open>src/util/fs.js\<close>\<close>

text \<open>
  A path is modelled by the list of its components, that is, by what
  \<open>p.split(path.sep)\<close> yields for a normalised path; \<open>path.join(dir, name)\<close> for a
  name returned by \<open>readdir\<close> appends one component.
\<close>

type_synonym path = "string list"

definition join :: "path \<Rightarrow> string \<Rightarrow> path" where
  "join dir name = dir @ [name]"

text \<open>
  Errors are values. \<open>SystemError c\<close> is an error of Node's \<open>fs\<close> with \<open>err.code = c\<close>,
  \<open>Unsure\<close> is the \<open>Error\<close> thrown at the end of \<open>build\<close>, \<open>InvariantViolation\<close> the one
  thrown by \<open>invariant\<close>; the last two have no \<open>code\<close>.
\<close>

datatype error = SystemError string | Unsure path | InvariantViolation

fun code :: "error \<Rightarrow> string option" where
  "code (SystemError c) = Some c"
| "code (Unsure p) = None"
| "code InvariantViolation = None"

abbreviation ENOENT :: error where "ENOENT \<equiv> SystemError ''ENOENT''"
abbreviation EEXIST :: error where "EEXIST \<equiv> SystemError ''EEXIST''"

text \<open>
  The fields of \<open>fs.Stats\<close> that the module reads. As in Node, the kind of an entry is
  decided by the file-type bits of \<open>mode\<close>, so two stats of different kinds never have
  equal modes. \<open>fmt s\<close> is \<open>mode & S_IFMT\<close>: bits 12 to 15.
\<close>

record stats =
  mode :: nat
  size :: nat
  atime :: int
  mtime :: int

definition S_IFREG :: nat where "S_IFREG = 32768"
definition S_IFDIR :: nat where "S_IFDIR = 16384"
definition S_IFLNK :: nat where "S_IFLNK = 40960"

definition fmt :: "stats \<Rightarrow> nat" where
  "fmt s = (mode s div 4096 mod 16) * 4096"

definition isFile :: "stats \<Rightarrow> bool" where
  "isFile s = (fmt s = S_IFREG)"

definition isDirectory :: "stats \<Rightarrow> bool" where
  "isDirectory s = (fmt s = S_IFDIR)"

definition isSymbolicLink :: "stats \<Rightarrow> bool" where
  "isSymbolicLink s = (fmt s = S_IFLNK)"

text \<open>
  Callbacks are data. \<open>User k\<close> is a function supplied by the caller, \<open>Progress d\<close> is the
  closure \<open>() => events.onProgress(item.dest)\<close> of \<open>buildActionsForCopy\<close>, and
  \<open>Countdown c k\<close> is the closure \<open>() => { if (--remaining === 0) onDone(); }\<close> that
  \<open>build\<close> gives to the children of a directory: \<open>c\<close> names the captured variable
  \<open>remaining\<close>, \<open>k\<close> is the captured \<open>onDone\<close>.
\<close>

datatype callback = Noop | User nat | Progress path | Countdown nat callback

record request =
  src :: path
  dest :: path
  onFresh :: "callback option"
  onDone :: "callback option"

datatype action =
    FileAction path path int int nat
  | SymlinkAction path path

fun is_file_action :: "action \<Rightarrow> bool" where
  "is_file_action (FileAction s d a m md) = True"
| "is_file_action (SymlinkAction d l) = False"

fun is_symlink_action :: "action \<Rightarrow> bool" where
  "is_symlink_action (FileAction s d a m md) = False"
| "is_symlink_action (SymlinkAction d l) = True"

text \<open>
  What a run does is recorded as a trace: one event for every call of a file-system
  primitive, followed by \<open>Rejected e\<close> when the call fails with \<open>e\<close>, and one event for
  every call of \<open>events.onStart\<close>, of \<open>events.onProgress\<close> and of a caller's callback.
\<close>

datatype event =
    Lstat path | Readdir path | Exists path | Access path nat | Unlink path
  | Mkdirp path | Readlink path | Realpath path | FsSymlink path path bool
  | Pipe path path nat | Utimes path int int
  | Rejected error
  | OnStart nat | OnProgress path | Called nat

text \<open>
  The primitives of Node's \<open>fs\<close>, of \<open>rimraf\<close> and of \<open>mkdirp\<close> are not part of the
  module: they are parameters. Each takes the world and returns its result with the
  world after the call, so that a world may change between two calls (other processes).
  \<open>fs_pipe src dest mode\<close> stands for
  \<open>createReadStream(src).pipe(createWriteStream(dest, {mode}))\<close> up to \<open>finish\<close>.
\<close>

record 'w prims =
  fs_lstat :: "path \<Rightarrow> 'w \<Rightarrow> (error + stats) \<times> 'w"
  fs_readdir :: "path \<Rightarrow> 'w \<Rightarrow> (error + string list) \<times> 'w"
  fs_exists :: "path \<Rightarrow> 'w \<Rightarrow> bool \<times> 'w"
  fs_access :: "path \<Rightarrow> nat \<Rightarrow> 'w \<Rightarrow> (error + unit) \<times> 'w"
  rimraf :: "path \<Rightarrow> 'w \<Rightarrow> (error + unit) \<times> 'w"
  fs_mkdirp :: "path \<Rightarrow> 'w \<Rightarrow> (error + unit) \<times> 'w"
  fs_readlink :: "path \<Rightarrow> 'w \<Rightarrow> (error + path) \<times> 'w"
  fs_realpath :: "path \<Rightarrow> 'w \<Rightarrow> (error + path) \<times> 'w"
  fs_symlink :: "path \<Rightarrow> path \<Rightarrow> bool \<Rightarrow> 'w \<Rightarrow> (error + unit) \<times> 'w"
  fs_pipe :: "path \<Rightarrow> path \<Rightarrow> nat \<Rightarrow> 'w \<Rightarrow> (error + unit) \<times> 'w"
  fs_utimes :: "path \<Rightarrow> int \<Rightarrow> int \<Rightarrow> 'w \<Rightarrow> (error + unit) \<times> 'w"
  win32 :: bool

record 'w sys =
  world :: 'w
  trace :: "event list"

text \<open>
  The state of one call of \<open>buildActionsForCopy\<close>: the world and the trace, and the
  variables that \<open>build\<close> closes over. \<open>possibleExtraneous\<close> is a JavaScript \<open>Set\<close>
  that is iterated, hence a duplicate-free list in insertion order; \<open>files\<close> is only
  tested for membership. \<open>remaining c\<close> is the variable \<open>remaining\<close> of the \<open>c\<close>-th
  directory that was expanded, \<open>fresh\<close> the number of such variables so far.
\<close>

record 'w planner = "'w sys" +
  queue :: "request list"
  possibleExtraneous :: "path list"
  files :: "path set"
  actions :: "action list"
  remaining :: "nat \<Rightarrow> int"
  fresh :: nat

section \<open>The promisified primitives\<close>

text \<open>
  \<open>promisify(fn)\<close> turns a primitive into a function that returns a promise: the call is
  made on the current world, and the promise is rejected with the primitive's error or
  resolved with its result. \<open>promisify(fs.exists, true)\<close> is never rejected.
\<close>

definition promisify ::
  "event \<Rightarrow> ('w \<Rightarrow> (error + 'a) \<times> 'w) \<Rightarrow> ('w, 'm) sys_scheme
     \<Rightarrow> (error + 'a) \<times> ('w, 'm) sys_scheme" where
  "promisify ev f s =
     (case f (world s) of
        (Inl e, w) \<Rightarrow> (Inl e, s\<lparr>world := w, trace := trace s @ [ev, Rejected e]\<rparr>)
      | (Inr a, w) \<Rightarrow> (Inr a, s\<lparr>world := w, trace := trace s @ [ev]\<rparr>))"

definition promisify_first_data ::
  "event \<Rightarrow> ('w \<Rightarrow> bool \<times> 'w) \<Rightarrow> ('w, 'm) sys_scheme \<Rightarrow> bool \<times> ('w, 'm) sys_scheme" where
  "promisify_first_data ev f s =
     (case f (world s) of (b, w) \<Rightarrow> (b, s\<lparr>world := w, trace := trace s @ [ev]\<rparr>))"

text \<open>Lines 24-35, the promisified primitives that the module uses.\<close>

definition readlink ::
  "'w prims \<Rightarrow> path \<Rightarrow> ('w, 'm) sys_scheme \<Rightarrow> (error + path) \<times> ('w, 'm) sys_scheme" where
  "readlink P p = promisify (Readlink p) (fs_readlink P p)"

definition realpath ::
  "'w prims \<Rightarrow> path \<Rightarrow> ('w, 'm) sys_scheme \<Rightarrow> (error + path) \<times> ('w, 'm) sys_scheme" where
  "realpath P p = promisify (Realpath p) (fs_realpath P p)"

definition readdir ::
  "'w prims \<Rightarrow> path \<Rightarrow> ('w, 'm) sys_scheme \<Rightarrow> (error + string list) \<times> ('w, 'm) sys_scheme" where
  "readdir P p = promisify (Readdir p) (fs_readdir P p)"

definition access ::
  "'w prims \<Rightarrow> path \<Rightarrow> nat \<Rightarrow> ('w, 'm) sys_scheme \<Rightarrow> (error + unit) \<times> ('w, 'm) sys_scheme" where
  "access P p m = promisify (Access p m) (fs_access P p m)"

definition unlink ::
  "'w prims \<Rightarrow> path \<Rightarrow> ('w, 'm) sys_scheme \<Rightarrow> (error + unit) \<times> ('w, 'm) sys_scheme" where
  "unlink P p = promisify (Unlink p) (rimraf P p)"

definition mkdirp ::
  "'w prims \<Rightarrow> path \<Rightarrow> ('w, 'm) sys_scheme \<Rightarrow> (error + unit) \<times> ('w, 'm) sys_scheme" where
  "mkdirp P p = promisify (Mkdirp p) (fs_mkdirp P p)"

definition exists ::
  "'w prims \<Rightarrow> path \<Rightarrow> ('w, 'm) sys_scheme \<Rightarrow> bool \<times> ('w, 'm) sys_scheme" where
  "exists P p = promisify_first_data (Exists p) (fs_exists P p)"

definition lstat ::
  "'w prims \<Rightarrow> path \<Rightarrow> ('w, 'm) sys_scheme \<Rightarrow> (error + stats) \<times> ('w, 'm) sys_scheme" where
  "lstat P p = promisify (Lstat p) (fs_lstat P p)"

definition fsSymlink ::
  "'w prims \<Rightarrow> path \<Rightarrow> path \<Rightarrow> bool \<Rightarrow> ('w, 'm) sys_scheme
     \<Rightarrow> (error + unit) \<times> ('w, 'm) sys_scheme" where
  "fsSymlink P target p junction =
     promisify (FsSymlink target p junction) (fs_symlink P target p junction)"

definition emit :: "event \<Rightarrow> ('w, 'm) sys_scheme \<Rightarrow> ('w, 'm) sys_scheme" where
  "emit ev s = s\<lparr>trace := trace s @ [ev]\<rparr>"

section \<open>The planner: \<open>buildActionsForCopy\<close>\<close>

fun call :: "callback \<Rightarrow> 'w planner \<Rightarrow> 'w planner" where
  "call Noop st = st"
| "call (User k) st = emit (Called k) st"
| "call (Progress d) st = emit (OnProgress d) st"
| "call (Countdown c k) st =
     (let r = remaining st c - 1; st' = st\<lparr>remaining := (remaining st)(c := r)\<rparr>
      in if r = 0 then call k st' else st')"

definition or_noop :: "callback option \<Rightarrow> callback" where
  "or_noop cb = (case cb of None \<Rightarrow> Noop | Some f \<Rightarrow> f)"

definition set_add :: "'a \<Rightarrow> 'a list \<Rightarrow> 'a list" where
  "set_add x xs = (if x \<in> set xs then xs else xs @ [x])"

definition set_delete :: "'a \<Rightarrow> 'a list \<Rightarrow> 'a list" where
  "set_delete x xs = filter (\<lambda>y. y \<noteq> x) xs"

text \<open>The inner loop of lines 160-162: the children of an extraneous directory.\<close>

fun add_children :: "path \<Rightarrow> string list \<Rightarrow> 'w planner \<Rightarrow> 'w planner" where
  "add_children loc [] st = st"
| "add_children loc (name # rest) st =
     add_children loc rest
       (st\<lparr>possibleExtraneous := set_add (join loc name) (possibleExtraneous st)\<rparr>)"

text \<open>The loop of lines 154-165 over \<open>destFiles\<close>.\<close>

fun mark_extraneous ::
  "'w prims \<Rightarrow> path \<Rightarrow> string list \<Rightarrow> string list \<Rightarrow> 'w planner \<Rightarrow> (error + unit) \<times> 'w planner" where
  "mark_extraneous P d srcFiles [] st = (Inr (), st)"
| "mark_extraneous P d srcFiles (name # rest) st =
     (if name \<notin> set srcFiles then
        (let loc = join d name;
             st1 = st\<lparr>possibleExtraneous := set_add loc (possibleExtraneous st)\<rparr>
         in case lstat P loc st1 of
              (Inl e, st2) \<Rightarrow> (Inl e, st2)
            | (Inr locStat, st2) \<Rightarrow>
                if isDirectory locStat then
                  (case readdir P loc st2 of
                     (Inl e, st3) \<Rightarrow> (Inl e, st3)
                   | (Inr locFiles, st3) \<Rightarrow>
                       mark_extraneous P d srcFiles rest (add_children loc locFiles st3))
                else mark_extraneous P d srcFiles rest st2)
      else mark_extraneous P d srcFiles rest st)"

text \<open>
  The block \<open>if (await exists(dest)) { ... }\<close> of lines 119-167 ends in one of three
  ways: it returns from \<open>build\<close> (\<open>Return\<close>), it falls through to the dispatch on the
  source kind (\<open>Proceed\<close>), or it has removed the destination and calls \<open>build(data)\<close>
  again (\<open>Rebuild\<close>).
\<close>

datatype outcome = Return | Proceed | Rebuild

text \<open>Lines 126-135: \<open>if (srcStat.mode !== destStat.mode) { ... }\<close>.\<close>

definition repair_mode ::
  "'w prims \<Rightarrow> request \<Rightarrow> stats \<Rightarrow> stats \<Rightarrow> bool \<Rightarrow> 'w planner
     \<Rightarrow> (error + outcome) \<times> 'w planner" where
  "repair_mode P data srcStat destStat bothFiles st =
     (if mode srcStat \<noteq> mode destStat then
        (if bothFiles then
           (case access P (dest data) (mode srcStat) st of
              (Inl e, st1) \<Rightarrow> (Inl e, st1)
            | (Inr u, st1) \<Rightarrow> (Inr Proceed, st1))
         else
           (case unlink P (dest data)
                   (st\<lparr>possibleExtraneous := set_delete (dest data) (possibleExtraneous st)\<rparr>) of
              (Inl e, st1) \<Rightarrow> (Inl e, st1)
            | (Inr u, st1) \<Rightarrow> (Inr Rebuild, st1)))
      else (Inr Proceed, st))"

text \<open>
  Line 143, the condition \<open>bothSymlinks && await readlink(src) === await readlink(dest)\<close>:
  the links are read only when both are symlinks.
\<close>

definition same_links ::
  "'w prims \<Rightarrow> request \<Rightarrow> bool \<Rightarrow> 'w planner \<Rightarrow> (error + bool) \<times> 'w planner" where
  "same_links P data bothSymlinks st =
     (if bothSymlinks then
        (case readlink P (src data) st of
           (Inl e, st1) \<Rightarrow> (Inl e, st1)
         | (Inr a, st1) \<Rightarrow>
             (case readlink P (dest data) st1 of
                (Inl e, st2) \<Rightarrow> (Inl e, st2)
              | (Inr b, st2) \<Rightarrow> (Inr (a = b), st2)))
      else (Inr False, st))"

text \<open>Lines 151-165, the body of \<open>if (bothFolders)\<close>.\<close>

definition stale_entries ::
  "'w prims \<Rightarrow> request \<Rightarrow> string list option \<Rightarrow> 'w planner \<Rightarrow> (error + outcome) \<times> 'w planner" where
  "stale_entries P data srcFiles st =
     (case readdir P (dest data) st of
        (Inl e, st1) \<Rightarrow> (Inl e, st1)
      | (Inr destFiles, st1) \<Rightarrow>
          (case srcFiles of
             None \<Rightarrow> (Inl InvariantViolation, st1)
           | Some sf \<Rightarrow>
               (case mark_extraneous P (dest data) sf destFiles st1 of
                  (Inl e, st2) \<Rightarrow> (Inl e, st2)
                | (Inr u, st2) \<Rightarrow> (Inr Proceed, st2))))"

text \<open>Lines 122-166, once both stats are known.\<close>

definition compare_stats ::
  "'w prims \<Rightarrow> request \<Rightarrow> stats \<Rightarrow> string list option \<Rightarrow> stats \<Rightarrow> 'w planner
     \<Rightarrow> (error + outcome) \<times> 'w planner" where
  "compare_stats P data srcStat srcFiles destStat st =
     (let bothFiles = (isFile srcStat \<and> isFile destStat);
          bothFolders = (\<not> bothFiles \<and> isDirectory srcStat \<and> isDirectory destStat);
          bothSymlinks = (\<not> bothFolders \<and> \<not> bothFiles
                            \<and> isSymbolicLink srcStat \<and> isSymbolicLink destStat)
      in case repair_mode P data srcStat destStat bothFiles st of
           (Inl e, st1) \<Rightarrow> (Inl e, st1)
         | (Inr Rebuild, st1) \<Rightarrow> (Inr Rebuild, st1)
         | (Inr Return, st1) \<Rightarrow> (Inr Return, st1)
         | (Inr Proceed, st1) \<Rightarrow>
             if bothFiles \<and> size srcStat = size destStat \<and> mtime srcStat = mtime destStat
             then (Inr Return, call (or_noop (onDone data)) st1)
             else
               (case same_links P data bothSymlinks st1 of
                  (Inl e, st2) \<Rightarrow> (Inl e, st2)
                | (Inr True, st2) \<Rightarrow> (Inr Return, call (or_noop (onDone data)) st2)
                | (Inr False, st2) \<Rightarrow>
                    if bothFolders then stale_entries P data srcFiles st2
                    else (Inr Proceed, st2)))"

definition compare_dest ::
  "'w prims \<Rightarrow> request \<Rightarrow> stats \<Rightarrow> string list option \<Rightarrow> 'w planner
     \<Rightarrow> (error + outcome) \<times> 'w planner" where
  "compare_dest P data srcStat srcFiles st =
     (case exists P (dest data) st of
        (False, st1) \<Rightarrow> (Inr Proceed, st1)
      | (True, st1) \<Rightarrow>
          (case lstat P (dest data) st1 of
             (Inl e, st2) \<Rightarrow> (Inl e, st2)
           | (Inr destStat, st2) \<Rightarrow> compare_stats P data srcStat srcFiles destStat st2))"

text \<open>Lines 181-185: every non-empty prefix of \<open>dest\<close> is added to \<open>files\<close>.\<close>

function add_parts :: "path \<Rightarrow> path set \<Rightarrow> path set" where
  "add_parts destParts fs =
     (if destParts = [] then fs else add_parts (butlast destParts) (insert destParts fs))"
  by pat_completeness auto
termination
  by (relation "measure (\<lambda>(p, fs). length p)") auto

declare add_parts.simps [simp del]

definition child_request :: "request \<Rightarrow> callback \<Rightarrow> callback \<Rightarrow> nat \<Rightarrow> string \<Rightarrow> request" where
  "child_request data fresh_cb done_cb c name =
     \<lparr>src = join (src data) name, dest = join (dest data) name,
      onFresh = Some fresh_cb, onDone = Some (Countdown c done_cb)\<rparr>"

text \<open>Lines 169-177, the source is a symlink.\<close>

definition plan_symlink :: "'w prims \<Rightarrow> request \<Rightarrow> 'w planner \<Rightarrow> (error + unit) \<times> 'w planner" where
  "plan_symlink P data st =
     (case readlink P (src data) (call (or_noop (onFresh data)) st) of
        (Inl e, st1) \<Rightarrow> (Inl e, st1)
      | (Inr linkname, st1) \<Rightarrow>
          (Inr (), call (or_noop (onDone data))
             (st1\<lparr>actions := actions st1 @ [SymlinkAction (dest data) linkname]\<rparr>)))"

text \<open>
  Lines 178-204, the source is a directory. \<open>c\<close> is the new variable \<open>remaining\<close>, which
  every child's \<open>onDone\<close> captures.
\<close>

definition plan_directory ::
  "'w prims \<Rightarrow> request \<Rightarrow> string list option \<Rightarrow> 'w planner \<Rightarrow> (error + unit) \<times> 'w planner" where
  "plan_directory P data srcFiles st =
     (case mkdirp P (dest data) st of
        (Inl e, st1) \<Rightarrow> (Inl e, st1)
      | (Inr u, st1) \<Rightarrow>
          (let st2 = st1\<lparr>files := add_parts (dest data) (files st1)\<rparr>
           in case srcFiles of
                None \<Rightarrow> (Inl InvariantViolation, st2)
              | Some sf \<Rightarrow>
                  (let c = fresh st2;
                       st3 = st2\<lparr>remaining := (remaining st2)(c := int (length sf)),
                                 fresh := Suc c\<rparr>;
                       st4 = (if length sf = 0 then call (or_noop (onDone data)) st3 else st3)
                   in (Inr (), st4\<lparr>queue := queue st4 @
                          map (child_request data (or_noop (onFresh data))
                                 (or_noop (onDone data)) c) sf\<rparr>))))"

text \<open>Lines 205-215, the source is a regular file.\<close>

definition plan_file :: "request \<Rightarrow> stats \<Rightarrow> 'w planner \<Rightarrow> (error + unit) \<times> 'w planner" where
  "plan_file data srcStat st =
     (let st1 = call (or_noop (onFresh data)) st;
          st2 = st1\<lparr>actions := actions st1 @
                  [FileAction (src data) (dest data) (atime srcStat) (mtime srcStat)
                     (mode srcStat)]\<rparr>
      in (Inr (), call (or_noop (onDone data)) st2))"

text \<open>The dispatch on the kind of the source, lines 169-218.\<close>

definition dispatch ::
  "'w prims \<Rightarrow> request \<Rightarrow> stats \<Rightarrow> string list option \<Rightarrow> 'w planner
     \<Rightarrow> (error + unit) \<times> 'w planner" where
  "dispatch P data srcStat srcFiles st =
     (if isSymbolicLink srcStat then plan_symlink P data st
      else if isDirectory srcStat then plan_directory P data srcFiles st
      else if isFile srcStat then plan_file data srcStat st
      else (Inl (Unsure (src data)), st))"

text \<open>Lines 112-117: the source is read before the destination is looked at.\<close>

definition read_source ::
  "'w prims \<Rightarrow> request \<Rightarrow> 'w planner \<Rightarrow> (error + stats \<times> string list option) \<times> 'w planner" where
  "read_source P data st =
     (case lstat P (src data) st of
        (Inl e, st1) \<Rightarrow> (Inl e, st1)
      | (Inr srcStat, st1) \<Rightarrow>
          if isDirectory srcStat then
            (case readdir P (src data) st1 of
               (Inl e, st2) \<Rightarrow> (Inl e, st2)
             | (Inr names, st2) \<Rightarrow> (Inr (srcStat, Some names), st2))
          else (Inr (srcStat, None), st1))"

text \<open>
  \<open>build\<close> calls itself after it has removed a destination of another kind or mode, and
  nothing in the module bounds that: the first argument is fuel, and \<open>None\<close> means that
  the fuel did not suffice.
\<close>

fun build :: "nat \<Rightarrow> 'w prims \<Rightarrow> request \<Rightarrow> 'w planner \<Rightarrow> ((error + unit) \<times> 'w planner) option" where
  "build 0 P data st = None"
| "build (Suc n) P data st =
     (case read_source P data (st\<lparr>files := insert (dest data) (files st)\<rparr>) of
        (Inl e, st1) \<Rightarrow> Some (Inl e, st1)
      | (Inr (srcStat, srcFiles), st1) \<Rightarrow>
          (case compare_dest P data srcStat srcFiles st1 of
             (Inl e, st2) \<Rightarrow> Some (Inl e, st2)
           | (Inr Return, st2) \<Rightarrow> Some (Inr (), st2)
           | (Inr Rebuild, st2) \<Rightarrow> build n P data st2
           | (Inr Proceed, st2) \<Rightarrow> Some (dispatch P data srcStat srcFiles st2)))"

text \<open>
  \<open>await Promise.all(items.map(build))\<close>: \<open>items.map(build)\<close> starts a build for every
  item of the batch, and \<open>Promise.all\<close> is rejected with the first rejection while the
  other builds run on, so that what they do is part of the run. The builds are
  cooperative tasks on one thread, which may take turns at every \<open>await\<close>. The model
  runs them one after the other in the order of \<open>items\<close>, each to its end: this is one
  of the schedules. The result is the first failure, if there is one.
\<close>

fun build_all :: "nat \<Rightarrow> 'w prims \<Rightarrow> request list \<Rightarrow> 'w planner \<Rightarrow> ((error + unit) \<times> 'w planner) option" where
  "build_all n P [] st = Some (Inr (), st)"
| "build_all n P (item # items) st =
     (case build n P item st of
        None \<Rightarrow> None
      | Some (r, st1) \<Rightarrow>
          (case build_all n P items st1 of
             None \<Rightarrow> None
           | Some (rs, st2) \<Rightarrow> Some (case r of Inl e \<Rightarrow> Inl e | Inr u \<Rightarrow> rs, st2)))"

text \<open>The loop \<open>while (queue.length)\<close> of lines 91-94.\<close>

fun drain :: "nat \<Rightarrow> 'w prims \<Rightarrow> 'w planner \<Rightarrow> ((error + unit) \<times> 'w planner) option" where
  "drain 0 P st = None"
| "drain (Suc n) P st =
     (if queue st = [] then Some (Inr (), st)
      else
        (case build_all n P (take 4 (queue st)) (st\<lparr>queue := drop 4 (queue st)\<rparr>) of
           None \<Rightarrow> None
         | Some (Inl e, st1) \<Rightarrow> Some (Inl e, st1)
         | Some (Inr u, st1) \<Rightarrow> drain n P st1))"

text \<open>The loop of lines 97-101 over \<open>possibleExtraneous\<close>.\<close>

fun remove_extraneous :: "'w prims \<Rightarrow> path list \<Rightarrow> 'w planner \<Rightarrow> (error + unit) \<times> 'w planner" where
  "remove_extraneous P [] st = (Inr (), st)"
| "remove_extraneous P (loc # locs) st =
     (if loc \<notin> files st then
        (case unlink P loc st of
           (Inl e, st1) \<Rightarrow> (Inl e, st1)
         | (Inr u, st1) \<Rightarrow> remove_extraneous P locs st1)
      else remove_extraneous P locs st)"

definition init_events :: "request \<Rightarrow> request" where
  "init_events item = item\<lparr>onDone := Some (Progress (dest item))\<rparr>"

text \<open>
  Lines 75-87. \<open>new Set(seed)\<close> keeps the first occurrence of each path. An absent
  seed is the empty list.
\<close>

definition start_planner :: "request list \<Rightarrow> path list \<Rightarrow> 'w sys \<Rightarrow> 'w planner" where
  "start_planner q seed s =
     emit (OnStart (length q))
       (sys.extend s
          \<lparr>queue = map init_events q, possibleExtraneous = fold set_add seed [], files = {},
           actions = [], remaining = (\<lambda>c. 0), fresh = 0\<rparr>)"

definition buildActionsForCopy ::
  "nat \<Rightarrow> 'w prims \<Rightarrow> request list \<Rightarrow> path list \<Rightarrow> 'w sys
     \<Rightarrow> ((error + action list) \<times> 'w planner) option" where
  "buildActionsForCopy n P q seed s =
     (case drain n P (start_planner q seed s) of
        None \<Rightarrow> None
      | Some (Inl e, st1) \<Rightarrow> Some (Inl e, st1)
      | Some (Inr u, st1) \<Rightarrow>
          (case remove_extraneous P (possibleExtraneous st1) st1 of
             (Inl e, st2) \<Rightarrow> Some (Inl e, st2)
           | (Inr u, st2) \<Rightarrow> Some (Inr (actions st2), st2)))"

section \<open>The executor: \<open>copyBulk\<close>\<close>

text \<open>
  Modelled from the spec: \<open>promise.queue\<close> of \<open>./promise.js\<close>, which is not among the
  sources. The spec (section 6, bounded task runner): given a list of items and a
  per-item asynchronous operation, it runs at most K concurrently and resolves when all
  complete, or rejects on the first failure. The model runs the operation on the items
  in list order, which is a schedule for every K, and stops at the first failure; K is
  absent where the caller passes none.
\<close>

fun promise_queue ::
  "'a list \<Rightarrow> ('a \<Rightarrow> 's \<Rightarrow> (error + unit) \<times> 's) \<Rightarrow> nat option \<Rightarrow> 's \<Rightarrow> (error + unit) \<times> 's" where
  "promise_queue [] producer k s = (Inr (), s)"
| "promise_queue (item # arr) producer k s =
     (case producer item s of
        (Inl e, s1) \<Rightarrow> (Inl e, s1)
      | (Inr u, s1) \<Rightarrow> promise_queue arr producer k s1)"

text \<open>
  The two steps of the promise of lines 240-261: the read stream piped into the write
  stream until \<open>finish\<close>, and \<open>fs.utimes\<close>; an error of either rejects the promise.
\<close>

definition pipe ::
  "'w prims \<Rightarrow> path \<Rightarrow> path \<Rightarrow> nat \<Rightarrow> ('w, 'm) sys_scheme
     \<Rightarrow> (error + unit) \<times> ('w, 'm) sys_scheme" where
  "pipe P s d md = promisify (Pipe s d md) (fs_pipe P s d md)"

definition utimes ::
  "'w prims \<Rightarrow> path \<Rightarrow> int \<Rightarrow> int \<Rightarrow> ('w, 'm) sys_scheme
     \<Rightarrow> (error + unit) \<times> ('w, 'm) sys_scheme" where
  "utimes P d a m = promisify (Utimes d a m) (fs_utimes P d a m)"

text \<open>
  The promise of lines 240-261 for one file action: stream the source into the
  destination, then on \<open>finish\<close> set the times, then report progress and resolve.
\<close>

fun copy_file :: "'w prims \<Rightarrow> action \<Rightarrow> ('w, 'm) sys_scheme \<Rightarrow> (error + unit) \<times> ('w, 'm) sys_scheme" where
  "copy_file P (FileAction s d a m md) st =
     (case pipe P s d md st of
        (Inl e, st1) \<Rightarrow> (Inl e, st1)
      | (Inr u, st1) \<Rightarrow>
          (case utimes P d a m st1 of
             (Inl e, st2) \<Rightarrow> (Inl e, st2)
           | (Inr u, st2) \<Rightarrow> (Inr (), emit (OnProgress d) st2)))"
| "copy_file P (SymlinkAction d l) st = (Inr (), st)"

fun make_symlink :: "'w prims \<Rightarrow> action \<Rightarrow> ('w, 'm) sys_scheme \<Rightarrow> (error + unit) \<times> ('w, 'm) sys_scheme" where
  "make_symlink P (SymlinkAction d l) st = fsSymlink P l d False st"
| "make_symlink P (FileAction s d a m md) st = (Inr (), st)"

text \<open>
  \<open>copyBulk\<close>, lines 226-268. The events object is the caller's or, when absent, a
  pair of no-ops; the trace records the calls made on it either way.
\<close>

definition copyBulk ::
  "nat \<Rightarrow> 'w prims \<Rightarrow> request list \<Rightarrow> path list \<Rightarrow> 'w sys \<Rightarrow> ((error + unit) \<times> 'w sys) option" where
  "copyBulk n P q seed s =
     (case buildActionsForCopy n P q seed s of
        None \<Rightarrow> None
      | Some (Inl e, st1) \<Rightarrow> Some (Inl e, sys.truncate st1)
      | Some (Inr acts, st1) \<Rightarrow>
          (let st2 = emit (OnStart (length acts)) (sys.truncate st1);
               fileActions = filter is_file_action acts
           in case promise_queue fileActions (copy_file P) (Some 4) st2 of
                (Inl e, st3) \<Rightarrow> Some (Inl e, st3)
              | (Inr u, st3) \<Rightarrow>
                  (let symlinkActions = filter is_symlink_action acts
                   in Some (promise_queue symlinkActions (make_symlink P) None st3))))"

definition copy :: "nat \<Rightarrow> 'w prims \<Rightarrow> path \<Rightarrow> path \<Rightarrow> 'w sys \<Rightarrow> ((error + unit) \<times> 'w sys) option" where
  "copy n P s d = copyBulk n P [\<lparr>src = s, dest = d, onFresh = None, onDone = None\<rparr>] []"

section \<open>The symlink materializer: \<open>symlink\<close>\<close>

text \<open>
  \<open>path.dirname\<close> and \<open>path.relative\<close> of Node on component lists (both paths absolute
  and normalised).
\<close>

definition dirname :: "path \<Rightarrow> path" where
  "dirname p = butlast p"

fun relative :: "path \<Rightarrow> path \<Rightarrow> path" where
  "relative (a # as) (b # bs) =
     (if a = b then relative as bs else map (\<lambda>x. ''..'') (a # as) @ (b # bs))"
| "relative from to = map (\<lambda>x. ''..'') from @ to"

text \<open>
  The first \<open>try\<close> block with its \<open>catch\<close>, lines 326-341. The result \<open>True\<close> is the
  \<open>return\<close> of line 332; \<open>False\<close> means that control reaches the second \<open>try\<close>.
\<close>

definition catch_enoent :: "error \<Rightarrow> 's \<Rightarrow> (error + bool) \<times> 's" where
  "catch_enoent e s = (if code e \<noteq> Some ''ENOENT'' then (Inl e, s) else (Inr False, s))"

definition unlink_dest :: "'w prims \<Rightarrow> path \<Rightarrow> 'w sys \<Rightarrow> (error + bool) \<times> 'w sys" where
  "unlink_dest P d s =
     (case unlink P d s of
        (Inl e, s1) \<Rightarrow> catch_enoent e s1
      | (Inr u, s1) \<Rightarrow> (Inr False, s1))"

definition remove_existing :: "'w prims \<Rightarrow> path \<Rightarrow> path \<Rightarrow> 'w sys \<Rightarrow> (error + bool) \<times> 'w sys" where
  "remove_existing P s d s0 =
     (case lstat P d s0 of
        (Inl e, s1) \<Rightarrow> catch_enoent e s1
      | (Inr stats, s1) \<Rightarrow>
          if isSymbolicLink stats then
            (case exists P d s1 of
               (False, s2) \<Rightarrow> unlink_dest P d s2
             | (True, s2) \<Rightarrow>
                 (case realpath P d s2 of
                    (Inl e, s3) \<Rightarrow> catch_enoent e s3
                  | (Inr resolved, s3) \<Rightarrow>
                      if resolved = s then (Inr True, s3) else unlink_dest P d s3))
          else unlink_dest P d s1)"

text \<open>The body of the second \<open>try\<close>, lines 344-351.\<close>

definition create_link :: "'w prims \<Rightarrow> path \<Rightarrow> path \<Rightarrow> 'w sys \<Rightarrow> (error + unit) \<times> 'w sys" where
  "create_link P s d s0 =
     (if win32 P then fsSymlink P s d True s0
      else fsSymlink P (relative (dirname d) s) d False s0)"

text \<open>
  \<open>symlink\<close> calls itself in the \<open>catch\<close> of the second \<open>try\<close>; the first argument is
  fuel, as for \<open>build\<close>.
\<close>

fun symlink :: "nat \<Rightarrow> 'w prims \<Rightarrow> path \<Rightarrow> path \<Rightarrow> 'w sys \<Rightarrow> ((error + unit) \<times> 'w sys) option" where
  "symlink 0 P s d s0 = None"
| "symlink (Suc n) P s d s0 =
     (case remove_existing P s d s0 of
        (Inl e, s1) \<Rightarrow> Some (Inl e, s1)
      | (Inr True, s1) \<Rightarrow> Some (Inr (), s1)
      | (Inr False, s1) \<Rightarrow>
          (case create_link P s d s1 of
             (Inr u, s2) \<Rightarrow> Some (Inr (), s2)
           | (Inl e, s2) \<Rightarrow>
               if code e = Some ''EEXIST'' then symlink n P s d s2 else Some (Inl e, s2)))"

section \<open>The path walker: \<open>walk\<close>\<close>





section \<open>An in-memory file system\<close>

text \<open>
  A world to run the module in: a finite table from paths to entries, with the
  primitives of a quiescent POSIX file system (no other process). Link targets are
  absolute paths. \<open>m_access\<close> is \<open>access(2)\<close>: it changes nothing, and it rejects a mode
  with bits outside \<open>R_OK | W_OK | X_OK\<close> with \<open>EINVAL\<close>. \<open>m_pipe\<close> opens the
  destination for writing as \<open>open(2)\<close> does, through a symlink to the link's target,
  and \<open>m_utimes\<close> follows a symlink likewise.
\<close>

record inode =
  meta :: stats
  content :: string
  target :: path

type_synonym memfs = "(path \<times> inode) list"

definition m_put :: "path \<Rightarrow> inode \<Rightarrow> memfs \<Rightarrow> memfs" where
  "m_put p e w =
     (if map_of w p = None then w @ [(p, e)]
      else map (\<lambda>(q, x). if q = p then (q, e) else (q, x)) w)"

definition m_lstat :: "path \<Rightarrow> memfs \<Rightarrow> (error + stats) \<times> memfs" where
  "m_lstat p w = (case map_of w p of None \<Rightarrow> (Inl ENOENT, w) | Some e \<Rightarrow> (Inr (meta e), w))"

definition m_readdir :: "path \<Rightarrow> memfs \<Rightarrow> (error + string list) \<times> memfs" where
  "m_readdir p w =
     (case map_of w p of
        None \<Rightarrow> (Inl ENOENT, w)
      | Some e \<Rightarrow>
          if isDirectory (meta e)
          then (Inr (map (\<lambda>(q, x). last q) (filter (\<lambda>(q, x). q \<noteq> [] \<and> butlast q = p) w)), w)
          else (Inl (SystemError ''ENOTDIR''), w))"

definition m_exists :: "path \<Rightarrow> memfs \<Rightarrow> bool \<times> memfs" where
  "m_exists p w =
     (case map_of w p of
        None \<Rightarrow> (False, w)
      | Some e \<Rightarrow> if isSymbolicLink (meta e) then (map_of w (target e) \<noteq> None, w) else (True, w))"

definition m_access :: "path \<Rightarrow> nat \<Rightarrow> memfs \<Rightarrow> (error + unit) \<times> memfs" where
  "m_access p m w =
     (if map_of w p = None then (Inl ENOENT, w)
      else if 7 < m then (Inl (SystemError ''EINVAL''), w)
      else (Inr (), w))"

definition m_rimraf :: "path \<Rightarrow> memfs \<Rightarrow> (error + unit) \<times> memfs" where
  "m_rimraf p w = (Inr (), filter (\<lambda>(q, x). take (length p) q \<noteq> p) w)"

definition new_dir :: inode where
  "new_dir = \<lparr>meta = \<lparr>mode = 16877, size = 0, atime = 0, mtime = 0\<rparr>, content = [], target = []\<rparr>"

fun m_mkdirs :: "path list \<Rightarrow> memfs \<Rightarrow> (error + unit) \<times> memfs" where
  "m_mkdirs [] w = (Inr (), w)"
| "m_mkdirs (p # ps) w =
     (case map_of w p of
        None \<Rightarrow> m_mkdirs ps (w @ [(p, new_dir)])
      | Some e \<Rightarrow> if isDirectory (meta e) then m_mkdirs ps w else (Inl EEXIST, w))"

definition m_mkdirp :: "path \<Rightarrow> memfs \<Rightarrow> (error + unit) \<times> memfs" where
  "m_mkdirp p w = m_mkdirs (map (\<lambda>k. take k p) [1 ..< Suc (length p)]) w"

definition m_readlink :: "path \<Rightarrow> memfs \<Rightarrow> (error + path) \<times> memfs" where
  "m_readlink p w =
     (case map_of w p of
        None \<Rightarrow> (Inl ENOENT, w)
      | Some e \<Rightarrow>
          if isSymbolicLink (meta e) then (Inr (target e), w)
          else (Inl (SystemError ''EINVAL''), w))"

definition m_realpath :: "path \<Rightarrow> memfs \<Rightarrow> (error + path) \<times> memfs" where
  "m_realpath p w =
     (case map_of w p of
        None \<Rightarrow> (Inl ENOENT, w)
      | Some e \<Rightarrow>
          if isSymbolicLink (meta e)
          then (if map_of w (target e) = None then (Inl ENOENT, w) else (Inr (target e), w))
          else (Inr p, w))"

definition m_symlink :: "path \<Rightarrow> path \<Rightarrow> bool \<Rightarrow> memfs \<Rightarrow> (error + unit) \<times> memfs" where
  "m_symlink t p junction w =
     (if map_of w p \<noteq> None then (Inl EEXIST, w)
      else (Inr (), w @ [(p, \<lparr>meta = \<lparr>mode = 41471, size = length t, atime = 0, mtime = 0\<rparr>,
                               content = [], target = t\<rparr>)]))"

definition m_follow :: "path \<Rightarrow> memfs \<Rightarrow> path" where
  "m_follow p w =
     (case map_of w p of
        None \<Rightarrow> p
      | Some x \<Rightarrow> if isSymbolicLink (meta x) then target x else p)"

definition m_write :: "inode \<Rightarrow> path \<Rightarrow> nat \<Rightarrow> memfs \<Rightarrow> (error + unit) \<times> memfs" where
  "m_write e d md w =
     (case map_of w d of
        None \<Rightarrow>
          if map_of w (butlast d) = None then (Inl ENOENT, w)
          else (Inr (), w @ [(d, \<lparr>meta = \<lparr>mode = S_IFREG + md mod 4096, size = size (meta e),
                                         atime = 0, mtime = 0\<rparr>,
                                  content = content e, target = []\<rparr>)])
      | Some x \<Rightarrow>
          if \<not> isFile (meta x) then (Inl (SystemError ''EISDIR''), w)
          else (Inr (), m_put d (x\<lparr>meta := (meta x)\<lparr>size := size (meta e)\<rparr>,
                                    content := content e\<rparr>) w))"

definition m_pipe :: "path \<Rightarrow> path \<Rightarrow> nat \<Rightarrow> memfs \<Rightarrow> (error + unit) \<times> memfs" where
  "m_pipe s d md w =
     (case map_of w s of
        None \<Rightarrow> (Inl ENOENT, w)
      | Some e \<Rightarrow>
          if \<not> isFile (meta e) then (Inl (SystemError ''EISDIR''), w)
          else m_write e (m_follow d w) md w)"

definition m_utimes :: "path \<Rightarrow> int \<Rightarrow> int \<Rightarrow> memfs \<Rightarrow> (error + unit) \<times> memfs" where
  "m_utimes p a m w =
     (case map_of w (m_follow p w) of
        None \<Rightarrow> (Inl ENOENT, w)
      | Some e \<Rightarrow>
          (Inr (), m_put (m_follow p w) (e\<lparr>meta := (meta e)\<lparr>atime := a, mtime := m\<rparr>\<rparr>) w))"

definition memfs :: "memfs prims" where
  "memfs =
     \<lparr>fs_lstat = m_lstat, fs_readdir = m_readdir, fs_exists = m_exists, fs_access = m_access,
      rimraf = m_rimraf, fs_mkdirp = m_mkdirp, fs_readlink = m_readlink,
      fs_realpath = m_realpath, fs_symlink = m_symlink, fs_pipe = m_pipe,
      fs_utimes = m_utimes, win32 = False\<rparr>"

definition file_node :: "nat \<Rightarrow> string \<Rightarrow> int \<Rightarrow> inode" where
  "file_node perm text t =
     \<lparr>meta = \<lparr>mode = S_IFREG + perm, size = length text, atime = t, mtime = t\<rparr>,
      content = text, target = []\<rparr>"

definition dir_node :: "nat \<Rightarrow> inode" where
  "dir_node perm =
     \<lparr>meta = \<lparr>mode = S_IFDIR + perm, size = 0, atime = 0, mtime = 0\<rparr>, content = [], target = []\<rparr>"

definition boot :: "'w \<Rightarrow> 'w sys" where
  "boot w = \<lparr>world = w, trace = []\<rparr>"

section \<open>Predicates for the proofs\<close>

subsection \<open>What one planner step may do\<close>

text \<open>
  \<open>users cb\<close> are the caller's functions that \<open>cb\<close> may call. \<open>below d p\<close>: the path
  \<open>p\<close> is \<open>d\<close> or lies below \<open>d\<close>. \<open>step data st st'\<close>
  bounds what processing the request \<open>data\<close> does to the planner state: the trace, the
  actions and the queue only grow, by events that a planner step may cause, by actions
  for \<open>dest data\<close> and by children of \<open>data\<close>; no path leaves \<open>files\<close>, and only
  \<open>dest data\<close> may leave \<open>possibleExtraneous\<close> or be given to \<open>unlink\<close>, and only paths
  longer than \<open>dest data\<close> may enter \<open>possibleExtraneous\<close>. \<open>walked U st st'\<close> is the same for any
  number of requests whose callbacks are among \<open>U\<close>. \<open>call_events\<close> and
  \<open>call_remaining\<close> give \<open>call\<close> in closed form. \<open>fired k s\<close> counts the calls of the
  caller's function \<open>k\<close>, and \<open>quiet k st st'\<close> says that there is none from \<open>st\<close> to
  \<open>st'\<close>, and no new action.
\<close>

fun users :: "callback \<Rightarrow> nat set" where
  "users Noop = {}"
| "users (User k) = {k}"
| "users (Progress d) = {}"
| "users (Countdown c k) = users k"

fun ev_ok :: "path \<Rightarrow> nat set \<Rightarrow> event \<Rightarrow> bool" where
  "ev_ok d U (Called k) = (k \<in> U)"
| "ev_ok d U (Exists p) = (p = d)"
| "ev_ok d U (Lstat p) = True"
| "ev_ok d U (Readdir p) = True"
| "ev_ok d U (Access p m) = True"
| "ev_ok d U (Unlink p) = (p = d)"
| "ev_ok d U (Mkdirp p) = True"
| "ev_ok d U (Readlink p) = True"
| "ev_ok d U (OnProgress p) = True"
| "ev_ok d U (Rejected e) = True"
| "ev_ok d U e = False"

fun action_dest :: "action \<Rightarrow> path" where
  "action_dest (FileAction s d a m md) = d"
| "action_dest (SymlinkAction d l) = d"

definition cb_users :: "request \<Rightarrow> nat set" where
  "cb_users data = users (or_noop (onFresh data)) \<union> users (or_noop (onDone data))"

definition below :: "path \<Rightarrow> path \<Rightarrow> bool" where
  "below d p = (take (length d) p = d)"

definition child_of :: "request \<Rightarrow> request \<Rightarrow> bool" where
  "child_of data r =
     (onFresh r = Some (or_noop (onFresh data))
      \<and> users (or_noop (onDone r)) = users (or_noop (onDone data))
      \<and> below (dest data) (dest r))"

definition step :: "request \<Rightarrow> 'w planner \<Rightarrow> 'w planner \<Rightarrow> bool" where
  "step data st st' =
     ((\<exists>t. trace st' = trace st @ t \<and> list_all (ev_ok (dest data) (cb_users data)) t)
      \<and> (\<exists>acts. actions st' = actions st @ acts \<and> list_all (\<lambda>a. action_dest a = dest data) acts)
      \<and> (\<exists>kids. queue st' = queue st @ kids \<and> list_all (child_of data) kids)
      \<and> files st \<subseteq> files st'
      \<and> set (possibleExtraneous st) \<subseteq> set (possibleExtraneous st') \<union> {dest data}
      \<and> set (possibleExtraneous st')
            \<subseteq> set (possibleExtraneous st) \<union> {p. length (dest data) < length p})"

fun call_events :: "callback \<Rightarrow> (nat \<Rightarrow> int) \<Rightarrow> event list" where
  "call_events Noop rm = []"
| "call_events (User k) rm = [Called k]"
| "call_events (Progress d) rm = [OnProgress d]"
| "call_events (Countdown c k) rm =
     (if rm c - 1 = 0 then call_events k (rm(c := rm c - 1)) else [])"

fun call_remaining :: "callback \<Rightarrow> (nat \<Rightarrow> int) \<Rightarrow> (nat \<Rightarrow> int)" where
  "call_remaining Noop rm = rm"
| "call_remaining (User k) rm = rm"
| "call_remaining (Progress d) rm = rm"
| "call_remaining (Countdown c k) rm =
     (if rm c - 1 = 0 then call_remaining k (rm(c := rm c - 1)) else rm(c := rm c - 1))"

fun walk_ev :: "path set \<Rightarrow> nat set \<Rightarrow> event \<Rightarrow> bool" where
  "walk_ev F U (Called k) = (k \<in> U)"
| "walk_ev F U (Exists p) = (p \<in> F)"
| "walk_ev F U (Lstat p) = True"
| "walk_ev F U (Readdir p) = True"
| "walk_ev F U (Access p m) = True"
| "walk_ev F U (Unlink p) = (p \<in> F)"
| "walk_ev F U (Mkdirp p) = True"
| "walk_ev F U (Readlink p) = True"
| "walk_ev F U (OnProgress p) = True"
| "walk_ev F U (Rejected e) = True"
| "walk_ev F U e = False"

definition walked :: "nat set \<Rightarrow> 'w planner \<Rightarrow> 'w planner \<Rightarrow> bool" where
  "walked U st st' =
     ((\<exists>t. trace st' = trace st @ t \<and> list_all (walk_ev (files st') U) t)
      \<and> (\<exists>acts. actions st' = actions st @ acts \<and> list_all (\<lambda>a. action_dest a \<in> files st') acts)
      \<and> files st \<subseteq> files st'
      \<and> set (possibleExtraneous st) \<subseteq> set (possibleExtraneous st') \<union> files st')"

definition queue_ok :: "nat set \<Rightarrow> 'w planner \<Rightarrow> bool" where
  "queue_ok U st = (\<forall>d\<in>set (queue st). cb_users d \<subseteq> U)"









subsection \<open>Unlinks during the walk\<close>




subsection \<open>Kinds of events\<close>

text \<open>
  \<open>copy_events a\<close> is the complete copy of the file action \<open>a\<close>: the stream copy,
  \<open>utimes\<close>, the progress report. \<open>link_events a\<close> is the creation of the symlink \<open>a\<close>.
\<close>

fun is_start :: "event \<Rightarrow> bool" where
  "is_start (OnStart n) = True"
| "is_start e = False"

fun is_copy_ev :: "event \<Rightarrow> bool" where
  "is_copy_ev (Pipe s d md) = True"
| "is_copy_ev (Utimes d a m) = True"
| "is_copy_ev e = False"

fun is_link_ev :: "event \<Rightarrow> bool" where
  "is_link_ev (FsSymlink t p j) = True"
| "is_link_ev e = False"

fun copy_events :: "action \<Rightarrow> event list" where
  "copy_events (FileAction s d a m md) = [Pipe s d md, Utimes d a m, OnProgress d]"
| "copy_events (SymlinkAction d l) = []"

fun link_events :: "action \<Rightarrow> event list" where
  "link_events (SymlinkAction d l) = [FsSymlink l d False]"
| "link_events (FileAction s d a m md) = []"

text \<open>
  \<open>phases fileActions symlinkActions t2 t3 r\<close>: what the two phases of the executor,
  with traces \<open>t2\<close> and \<open>t3\<close> and result \<open>r\<close>, may be. On success every file action was
  copied in full and every symlink created. On failure either the symlink phase is
  empty and the copy phase ends with the rejection; or every file action was copied in
  full, and the symlink phase is the creation of the first symlinks, the last of them
  rejected.
\<close>

definition phases ::
  "action list \<Rightarrow> action list \<Rightarrow> event list \<Rightarrow> event list \<Rightarrow> error + unit \<Rightarrow> bool" where
  "phases fileActions symlinkActions t2 t3 r =
     (case r of
        Inr u \<Rightarrow>
          t2 = concat (map copy_events fileActions)
          \<and> t3 = concat (map link_events symlinkActions)
      | Inl e \<Rightarrow>
          if t3 = [] then t2 \<noteq> [] \<and> last t2 = Rejected e
          else t2 = concat (map copy_events fileActions)
               \<and> list_ex (\<lambda>k. t3 = concat (map link_events (take (Suc k) symlinkActions))
                                    @ [Rejected e])
                    [0 ..< length symlinkActions])"

fun is_rejected :: "event \<Rightarrow> bool" where
  "is_rejected (Rejected e) = True"
| "is_rejected ev = False"

fun rejected_enoent :: "event \<Rightarrow> bool" where
  "rejected_enoent (Rejected e) = (code e = Some ''ENOENT'')"
| "rejected_enoent ev = True"

definition block_ok :: "event list \<Rightarrow> error + bool \<Rightarrow> bool" where
  "block_ok t r =
     (case r of
        Inl e \<Rightarrow> t \<noteq> [] \<and> last t = Rejected e \<and> code e \<noteq> Some ''ENOENT''
      | Inr b \<Rightarrow> list_all rejected_enoent t)"

subsection \<open>Listings of \<open>walk\<close>\<close>
















section \<open>Example worlds\<close>

text \<open>
  \<open>run_trace\<close> reads the trace off the result of a run, \<open>run_files\<close> the set \<open>files\<close>,
  \<open>run_extraneous\<close> the set \<open>possibleExtraneous\<close>, and \<open>run_lookup\<close> the entry at a
  path of the in-memory file system; \<open>idle w\<close> is a planner with nothing to do in the
  world \<open>w\<close>. The file systems: \<open>fs1\<close>, a source directory with two files and no
  destination; \<open>fs2\<close>, a destination that holds the source's file and a file \<open>x\<close> that
  the source does not have; \<open>fs3\<close>, a source with a file and a symlink to it; \<open>fs4\<close>,
  the same file on both sides with modes 0755 and 0644; \<open>fs5\<close>, a source file \<open>x\<close>
  where the destination has a directory \<open>x\<close>; \<open>fs6\<close>, a root with one file; \<open>fs7\<close>, a
  tree with an ignored directory, and \<open>tree7\<close>, the tree that it holds below \<open>R\<close>;
  \<open>fs8\<close>, an empty source \<open>S\<close>, a file \<open>T/f\<close>, and a destination \<open>D\<close> that holds the
  file as \<open>D/x/f\<close>; \<open>fs9\<close>, a source file \<open>x\<close> where the destination has a symlink
  \<open>x\<close> to a path that does not exist; \<open>fs10\<close>, two source directories \<open>S\<close> and \<open>T\<close>.
  \<open>lenient\<close> is the in-memory file system with an \<open>access\<close> that always resolves.
  \<open>racy\<close> is the in-memory file system next to another process that creates the
  destination just before each of the next \<open>n\<close> symlink creations.
\<close>

definition run_trace :: "('r \<times> ('w, 'm) sys_scheme) option \<Rightarrow> event list" where
  "run_trace res = (case res of None \<Rightarrow> [] | Some (r, s) \<Rightarrow> trace s)"

definition idle :: "'w \<Rightarrow> 'w planner" where
  "idle w = start_planner [] [] (boot w)"



definition fs1 :: memfs where
  "fs1 = [([''S''], dir_node 493), ([''S'', ''a''], file_node 420 ''hi'' 5),
          ([''S'', ''b''], file_node 420 ''yo'' 6)]"

definition req1 :: request where
  "req1 = \<lparr>src = [''S''], dest = [''D''], onFresh = Some (User 7), onDone = Some (User 8)\<rparr>"

definition fs2 :: memfs where
  "fs2 = [([''S''], dir_node 493), ([''S'', ''a''], file_node 420 ''hi'' 5),
          ([''D''], dir_node 493), ([''D'', ''a''], file_node 420 ''hi'' 5),
          ([''D'', ''x''], file_node 420 ''old'' 3)]"

definition req2 :: request where
  "req2 = \<lparr>src = [''S''], dest = [''D''], onFresh = None, onDone = None\<rparr>"

definition fs3 :: memfs where
  "fs3 = [([''S''], dir_node 493), ([''S'', ''a''], file_node 420 ''hi'' 5),
          ([''S'', ''l''], \<lparr>meta = \<lparr>mode = 41471, size = 3, atime = 0, mtime = 0\<rparr>,
                             content = [], target = [''S'', ''a'']\<rparr>)]"

definition req3 :: request where
  "req3 = \<lparr>src = [''S''], dest = [''D''], onFresh = None, onDone = None\<rparr>"

definition req_l :: request where
  "req_l = \<lparr>src = [''S'', ''l''], dest = [''D'', ''l''], onFresh = None, onDone = None\<rparr>"




definition req_a :: request where
  "req_a = \<lparr>src = [''S'', ''a''], dest = [''D'', ''a''], onFresh = Some (User 7),
            onDone = Some (Progress [''D'', ''a''])\<rparr>"

definition fs4 :: memfs where
  "fs4 = [([''S''], dir_node 493), ([''S'', ''a''], file_node 493 ''hi'' 5),
          ([''D''], dir_node 493), ([''D'', ''a''], file_node 420 ''hi'' 5)]"

definition lenient :: "memfs prims" where
  "lenient = memfs\<lparr>fs_access := \<lambda>p m w. (Inr (), w)\<rparr>"




definition lift_fs :: "(memfs \<Rightarrow> 'r \<times> memfs) \<Rightarrow> memfs \<times> nat \<Rightarrow> 'r \<times> (memfs \<times> nat)" where
  "lift_fs f w = (case f (fst w) of (r, m) \<Rightarrow> (r, (m, snd w)))"

definition racy_symlink :: "path \<Rightarrow> path \<Rightarrow> bool \<Rightarrow> memfs \<times> nat \<Rightarrow> (error + unit) \<times> (memfs \<times> nat)" where
  "racy_symlink t p junction w =
     (if 0 < snd w then (Inl EEXIST, (m_put p (file_node 420 [] 0) (fst w), snd w - 1))
      else lift_fs (m_symlink t p junction) w)"

definition racy :: "(memfs \<times> nat) prims" where
  "racy =
     \<lparr>fs_lstat = (\<lambda>p. lift_fs (m_lstat p)), fs_readdir = (\<lambda>p. lift_fs (m_readdir p)),
      fs_exists = (\<lambda>p. lift_fs (m_exists p)), fs_access = (\<lambda>p m. lift_fs (m_access p m)),
      rimraf = (\<lambda>p. lift_fs (m_rimraf p)), fs_mkdirp = (\<lambda>p. lift_fs (m_mkdirp p)),
      fs_readlink = (\<lambda>p. lift_fs (m_readlink p)), fs_realpath = (\<lambda>p. lift_fs (m_realpath p)),
      fs_symlink = racy_symlink, fs_pipe = (\<lambda>s d md. lift_fs (m_pipe s d md)),
      fs_utimes = (\<lambda>p a m. lift_fs (m_utimes p a m)), win32 = False\<rparr>"

definition fs6 :: memfs where
  "fs6 = [([''''], dir_node 493), (['''', ''a''], file_node 420 ''hi'' 5)]"






section \<open>Unfolding and evaluation\<close>

lemmas prim_defs = promisify_def promisify_first_data_def lstat_def readdir_def exists_def access_def unlink_def mkdirp_def
  readlink_def realpath_def fsSymlink_def pipe_def utimes_def

lemma add_parts_mono: "fs \<subseteq> add_parts p fs"
proof (induction p fs rule: add_parts.induct)
  case (1 destParts fs)
  show ?case
  proof (cases "destParts = []")
    case True
    then show ?thesis by (subst add_parts.simps) simp
  next
    case False
    with 1 have "insert destParts fs \<subseteq> add_parts (butlast destParts) (insert destParts fs)" by simp
    with False show ?thesis by (subst add_parts.simps) auto
  qed
qed

lemmas mem_defs = memfs_def m_lstat_def m_readdir_def m_exists_def m_access_def m_rimraf_def
  m_mkdirp_def m_readlink_def m_realpath_def m_symlink_def m_pipe_def m_follow_def m_write_def
  m_utimes_def m_put_def
  new_dir_def file_node_def dir_node_def boot_def

lemmas stat_defs = isFile_def isDirectory_def isSymbolicLink_def fmt_def S_IFREG_def S_IFDIR_def
  S_IFLNK_def

lemmas plan_defs = read_source_def compare_dest_def compare_stats_def repair_mode_def
  same_links_def stale_entries_def dispatch_def plan_symlink_def plan_directory_def
  plan_file_def or_noop_def set_add_def set_delete_def join_def child_request_def
  init_events_def start_planner_def buildActionsForCopy_def emit_def sys.defs

lemma add_parts_Nil: "add_parts [] fs = fs"
  by (subst add_parts.simps) simp

lemma add_parts_Cons: "add_parts (x # xs) fs = add_parts (butlast (x # xs)) (insert (x # xs) fs)"
  by (subst add_parts.simps) simp

lemmas run_defs = copyBulk_def copy_def run_trace_def pipe_def utimes_def

lemmas link_defs = remove_existing_def unlink_dest_def catch_enoent_def create_link_def
  dirname_def racy_def racy_symlink_def lift_fs_def

section \<open>Lemmas about the planner\<close>

lemma call_eq:
  "call cb st = st\<lparr>trace := trace st @ call_events cb (remaining st),
                  remaining := call_remaining cb (remaining st)\<rparr>"
  by (induction cb arbitrary: st) (auto simp: Let_def emit_def)

lemma add_children_eq:
  "add_children loc fs st =
     st\<lparr>possibleExtraneous := fold (\<lambda>f pe. set_add (join loc f) pe) fs (possibleExtraneous st)\<rparr>"
  by (induction fs arbitrary: st) auto

lemma call_events_ok: "users cb \<subseteq> U \<Longrightarrow> list_all (ev_ok d U) (call_events cb rm)"
  by (induction cb arbitrary: rm) auto

lemma set_fold_set_add: "set (fold (\<lambda>f pe. set_add (g f) pe) fs pe) = set pe \<union> g ` set fs"
  by (induction fs arbitrary: pe) (auto simp: set_add_def)

lemma step_refl: "step data st st"
  by (auto simp: step_def)

lemma step_trans: "step data a b \<Longrightarrow> step data b c \<Longrightarrow> step data a c"
  unfolding step_def by (elim conjE exE) (auto simp: subset_iff)

lemma step_call: "users cb \<subseteq> cb_users data \<Longrightarrow> step data st (call cb st)"
  by (auto simp: step_def call_eq call_events_ok)

lemma step_promisify:
  "promisify ev f st = (r, st') \<Longrightarrow> ev_ok (dest data) (cb_users data) ev \<Longrightarrow> step data st st'"
  by (auto simp: promisify_def step_def split: prod.splits sum.splits)

lemma step_promisify_first_data:
  "promisify_first_data ev f st = (r, st') \<Longrightarrow> ev_ok (dest data) (cb_users data) ev
   \<Longrightarrow> step data st st'"
  by (auto simp: promisify_first_data_def step_def split: prod.splits)

lemma promisify_first_data_trace:
  "promisify_first_data ev f s = (b, s') \<Longrightarrow> trace s' = trace s @ [ev]"
  by (auto simp: promisify_first_data_def split: prod.splits)

lemma step_mark:
  "mark_extraneous P (dest data) sf df st = (r, st') \<Longrightarrow> step data st st'"
proof (induction df arbitrary: st)
  case Nil
  then show ?case by (simp add: step_refl)
next
  case (Cons f rest)
  show ?case
  proof (cases "f \<in> set sf")
    case True
    with Cons show ?thesis by simp
  next
    case False
    let ?loc = "join (dest data) f"
    let ?st1 = "st\<lparr>possibleExtraneous := set_add ?loc (possibleExtraneous st)\<rparr>"
    have s1: "step data st ?st1"
      by (auto simp: step_def set_add_def join_def)
    obtain r2 st2 where l: "lstat P ?loc ?st1 = (r2, st2)" by (cases "lstat P ?loc ?st1")
    have s2: "step data ?st1 st2"
      using l unfolding lstat_def by (rule step_promisify) simp
    show ?thesis
    proof (cases r2)
      case (Inl e)
      with Cons.prems False l have "st' = st2" by (simp add: Let_def)
      with s1 s2 show ?thesis by (blast intro: step_trans)
    next
      case (Inr locStat)
      show ?thesis
      proof (cases "isDirectory locStat")
        case False
        with Cons.prems \<open>f \<notin> set sf\<close> l Inr
        have "mark_extraneous P (dest data) sf rest st2 = (r, st')" by (simp add: Let_def)
        from Cons.IH[OF this] s1 s2 show ?thesis by (blast intro: step_trans)
      next
        case True
        obtain r3 st3 where rd: "readdir P ?loc st2 = (r3, st3)" by (cases "readdir P ?loc st2")
        have s3: "step data st2 st3"
          using rd unfolding readdir_def by (rule step_promisify) simp
        show ?thesis
        proof (cases r3)
          case (Inl e)
          with Cons.prems \<open>f \<notin> set sf\<close> l Inr True rd have "st' = st3" by (simp add: Let_def)
          with s1 s2 s3 show ?thesis by (blast intro: step_trans)
        next
          case (Inr locFiles)
          have s4: "step data st3 (add_children ?loc locFiles st3)"
            by (auto simp: step_def add_children_eq set_fold_set_add join_def)
          from Cons.prems \<open>f \<notin> set sf\<close> l \<open>r2 = Inr locStat\<close> True rd Inr
          have "mark_extraneous P (dest data) sf rest (add_children ?loc locFiles st3) = (r, st')"
            by (simp add: Let_def)
          from Cons.IH[OF this] s1 s2 s3 s4 show ?thesis by (blast intro: step_trans)
        qed
      qed
    qed
  qed
qed

lemma step_repair: "repair_mode P data ss ds bf st = (r, st') \<Longrightarrow> step data st st'"
  unfolding repair_mode_def
  by (auto simp: step_def prim_defs set_delete_def split: if_splits prod.splits sum.splits)

lemma step_same_links: "same_links P data b st = (r, st') \<Longrightarrow> step data st st'"
  unfolding same_links_def
  by (auto simp: step_def prim_defs split: if_splits prod.splits sum.splits)

lemma step_stale: "stale_entries P data sf st = (r, st') \<Longrightarrow> step data st st'"
  unfolding stale_entries_def readdir_def
  by (auto split: prod.splits sum.splits option.splits
        dest!: step_mark step_promisify[where data = data] intro: step_trans)

lemma step_compare_stats:
  assumes "compare_stats P data ss sf ds st = (r, st')"
  shows "step data st st'"
proof -
  have u: "users (or_noop (onDone data)) \<subseteq> cb_users data" by (simp add: cb_users_def)
  show ?thesis
    using assms unfolding compare_stats_def Let_def
    by (auto split: prod.splits sum.splits outcome.splits bool.splits if_splits
          dest!: step_repair step_same_links step_stale
          intro: step_trans[OF _ step_call[OF u]] step_trans)
qed

lemma step_compare_dest:
  assumes "compare_dest P data ss sf st = (r, st')"
  shows "step data st st'"
  using assms unfolding compare_dest_def exists_def lstat_def
  by (auto split: prod.splits sum.splits bool.splits
        dest!: step_compare_stats step_promisify[where data = data]
          step_promisify_first_data[where data = data]
        intro: step_trans)

lemma step_plan_symlink:
  assumes "plan_symlink P data st = (r, st')"
  shows "step data st st'"
  using assms unfolding plan_symlink_def
  by (auto simp: step_def prim_defs call_eq call_events_ok cb_users_def
        split: prod.splits sum.splits)

lemma step_plan_file:
  assumes "plan_file data ss st = (r, st')"
  shows "step data st st'"
  using assms unfolding plan_file_def
  by (auto simp: step_def call_eq call_events_ok cb_users_def Let_def)

lemma child_request_child_of:
  "child_of data (child_request data (or_noop (onFresh data)) (or_noop (onDone data)) c name)"
  by (simp add: child_of_def child_request_def or_noop_def below_def join_def)

lemma step_plan_directory:
  assumes "plan_directory P data sf st = (r, st')"
  shows "step data st st'"
proof -
  have u: "users (or_noop (onDone data)) \<subseteq> cb_users data" by (simp add: cb_users_def)
  have k: "list_all (child_of data)
             (map (child_request data (or_noop (onFresh data)) (or_noop (onDone data)) c) names)"
    for c names
    by (simp add: list_all_iff child_request_child_of)
  show ?thesis
    using assms add_parts_mono[of "files st" "dest data"] unfolding plan_directory_def
    by (auto simp: step_def prim_defs call_eq call_events_ok[OF u] Let_def k
          split: prod.splits sum.splits option.splits if_splits)
qed

lemma step_dispatch:
  assumes "dispatch P data ss sf st = (r, st')"
  shows "step data st st'"
  using assms unfolding dispatch_def
  by (auto simp: step_refl split: if_splits
        dest: step_plan_symlink step_plan_directory step_plan_file)

lemma step_read_source:
  assumes "read_source P data st = (r, st')"
  shows "step data st st'"
  using assms unfolding read_source_def
  by (auto simp: step_def prim_defs split: prod.splits sum.splits if_splits)

lemma step_files: "step data st st' \<Longrightarrow> files st \<subseteq> files st'"
  by (simp add: step_def)

lemma step_build:
  "build n P data st = Some (r, st') \<Longrightarrow> step data st st' \<and> dest data \<in> files st'"
proof (induction n arbitrary: st)
  case 0
  then show ?case by simp
next
  case (Suc n)
  let ?st0 = "st\<lparr>files := insert (dest data) (files st)\<rparr>"
  have s0: "step data st ?st0" by (auto simp: step_def)
  obtain r1 st1 where rs: "read_source P data ?st0 = (r1, st1)"
    by (cases "read_source P data ?st0")
  have s1: "step data st st1"
    using step_trans[OF s0 step_read_source[OF rs]] .
  have d1: "dest data \<in> files st1"
    using step_files[OF step_read_source[OF rs]] by auto
  show ?case
  proof (cases r1)
    case (Inl e)
    with Suc.prems rs have "st' = st1" by simp
    with s1 d1 show ?thesis by simp
  next
    case (Inr pr)
    obtain ss sf where pr: "pr = (ss, sf)" by (cases pr)
    obtain r2 st2 where cd: "compare_dest P data ss sf st1 = (r2, st2)"
      by (cases "compare_dest P data ss sf st1")
    have s2: "step data st st2"
      using step_trans[OF s1 step_compare_dest[OF cd]] .
    have d2: "dest data \<in> files st2"
      using step_files[OF step_compare_dest[OF cd]] d1 by auto
    show ?thesis
    proof (cases r2)
      case (Inl e)
      with Suc.prems rs Inr pr cd have "st' = st2" by simp
      with s2 d2 show ?thesis by simp
    next
      case out: (Inr out)
      show ?thesis
      proof (cases out)
        case Return
        with Suc.prems rs Inr pr cd out have "st' = st2" by simp
        with s2 d2 show ?thesis by simp
      next
        case Rebuild
        with Suc.prems rs Inr pr cd out have "build n P data st2 = Some (r, st')" by simp
        from Suc.IH[OF this] s2 show ?thesis by (blast intro: step_trans)
      next
        case Proceed
        with Suc.prems rs Inr pr cd out have dp: "dispatch P data ss sf st2 = (r, st')" by simp
        from step_dispatch[OF dp] s2 d2 step_files[OF step_dispatch[OF dp]]
        show ?thesis by (blast intro: step_trans)
      qed
    qed
  qed
qed

lemma walk_ev_mono: "walk_ev F U e \<Longrightarrow> F \<subseteq> F' \<Longrightarrow> walk_ev F' U e"
  by (cases e) auto

lemma ev_ok_walk_ev: "ev_ok d U0 e \<Longrightarrow> d \<in> F \<Longrightarrow> U0 \<subseteq> U \<Longrightarrow> walk_ev F U e"
  by (cases e) auto

lemma walked_refl: "walked U st st"
  by (auto simp: walked_def)

lemma walked_trans:
  assumes "walked U a b" "walked U b c"
  shows "walked U a c"
proof -
  from assms obtain t1 t2 acts1 acts2 where
    t1: "trace b = trace a @ t1" "list_all (walk_ev (files b) U) t1" and
    t2: "trace c = trace b @ t2" "list_all (walk_ev (files c) U) t2" and
    a1: "actions b = actions a @ acts1" "list_all (\<lambda>x. action_dest x \<in> files b) acts1" and
    a2: "actions c = actions b @ acts2" "list_all (\<lambda>x. action_dest x \<in> files c) acts2" and
    f: "files a \<subseteq> files b" "files b \<subseteq> files c" and
    pe: "set (possibleExtraneous a) \<subseteq> set (possibleExtraneous b) \<union> files b"
        "set (possibleExtraneous b) \<subseteq> set (possibleExtraneous c) \<union> files c"
    unfolding walked_def by blast
  have "list_all (walk_ev (files c) U) (t1 @ t2)"
    using t1(2) t2(2) f(2) by (auto simp: list_all_iff intro: walk_ev_mono)
  moreover have "list_all (\<lambda>x. action_dest x \<in> files c) (acts1 @ acts2)"
    using a1(2) a2(2) f(2) by (auto simp: list_all_iff)
  moreover have "set (possibleExtraneous a) \<subseteq> set (possibleExtraneous c) \<union> files c"
    using pe f by blast
  ultimately show ?thesis
    unfolding walked_def using t1(1) t2(1) a1(1) a2(1) f by auto
qed

lemma step_walked:
  assumes "step data st st'" "dest data \<in> files st'" "cb_users data \<subseteq> U"
  shows "walked U st st'"
proof -
  from assms(1) obtain t acts where
    t: "trace st' = trace st @ t" "list_all (ev_ok (dest data) (cb_users data)) t" and
    a: "actions st' = actions st @ acts" "list_all (\<lambda>a. action_dest a = dest data) acts" and
    f: "files st \<subseteq> files st'" and
    pe: "set (possibleExtraneous st) \<subseteq> set (possibleExtraneous st') \<union> {dest data}"
    unfolding step_def by blast
  have "list_all (walk_ev (files st') U) t"
    using t(2) assms(2,3) by (auto simp: list_all_iff intro: ev_ok_walk_ev)
  moreover have "list_all (\<lambda>a. action_dest a \<in> files st') acts"
    using a(2) assms(2) by (auto simp: list_all_iff)
  moreover have "set (possibleExtraneous st) \<subseteq> set (possibleExtraneous st') \<union> files st'"
    using pe assms(2) by auto
  ultimately show ?thesis
    unfolding walked_def using t(1) a(1) f by auto
qed

lemma step_queue:
  assumes "step data st st'" "cb_users data \<subseteq> U" "\<forall>d\<in>set (queue st). cb_users d \<subseteq> U"
  shows "\<forall>d\<in>set (queue st'). cb_users d \<subseteq> U"
proof -
  from assms(1) obtain kids where
    k: "queue st' = queue st @ kids" "list_all (child_of data) kids"
    unfolding step_def by blast
  have "cb_users d = cb_users data" if "child_of data d" for d
    using that by (auto simp: child_of_def cb_users_def or_noop_def)
  with k assms(2,3) show ?thesis by (auto simp: list_all_iff)
qed

lemma step_queue_prefix: "step data st st' \<Longrightarrow> set (queue st) \<subseteq> set (queue st')"
  by (auto simp: step_def)

lemma build_all_walked:
  "build_all n P items st = Some (r, st') \<Longrightarrow> \<forall>d\<in>set items. cb_users d \<subseteq> U \<Longrightarrow> queue_ok U st
   \<Longrightarrow> walked U st st' \<and> queue_ok U st' \<and> set (queue st) \<subseteq> set (queue st')
       \<and> (r = Inr () \<longrightarrow> (\<forall>d\<in>set items. dest d \<in> files st'))"
proof (induction items arbitrary: st r)
  case Nil
  then show ?case by (simp add: walked_refl)
next
  case (Cons item items)
  from Cons.prems(1) obtain r1 st1 where b: "build n P item st = Some (r1, st1)"
    by (cases "build n P item st") auto
  from step_build[OF b] have s: "step item st st1" and d: "dest item \<in> files st1" by auto
  have u: "cb_users item \<subseteq> U" using Cons.prems(2) by simp
  have w1: "walked U st st1" using step_walked[OF s d u] .
  have q1: "queue_ok U st1"
    using step_queue[OF s u] Cons.prems(3) by (simp add: queue_ok_def)
  have p1: "set (queue st) \<subseteq> set (queue st1)" using step_queue_prefix[OF s] .
  from Cons.prems(1) b obtain r2 where rest: "build_all n P items st1 = Some (r2, st')"
    and r: "r = (case r1 of Inl e \<Rightarrow> Inl e | Inr u \<Rightarrow> r2)"
    by (cases "build_all n P items st1") auto
  have "\<forall>d\<in>set items. cb_users d \<subseteq> U" using Cons.prems(2) by simp
  from Cons.IH[OF rest this q1]
  have w2: "walked U st1 st'" and q2: "queue_ok U st'"
    and p2: "set (queue st1) \<subseteq> set (queue st')"
    and f2: "r2 = Inr () \<longrightarrow> (\<forall>d\<in>set items. dest d \<in> files st')" by auto
  have "files st1 \<subseteq> files st'" using w2 by (simp add: walked_def)
  with d have d': "dest item \<in> files st'" by auto
  have "r = Inr () \<longrightarrow> r2 = Inr ()" using r by (cases r1) auto
  with walked_trans[OF w1 w2] q2 p1 p2 f2 d' show ?case by auto
qed

lemma drain_walked:
  "drain n P st = Some (r, st') \<Longrightarrow> queue_ok U st
   \<Longrightarrow> walked U st st'
       \<and> (r = Inr () \<longrightarrow> queue st' = [] \<and> (\<forall>d\<in>set (queue st). dest d \<in> files st'))"
proof (induction n arbitrary: st)
  case 0
  then show ?case by simp
next
  case (Suc n)
  show ?case
  proof (cases "queue st = []")
    case True
    with Suc.prems show ?thesis by (auto simp: walked_refl)
  next
    case False
    let ?items = "take 4 (queue st)"
    let ?st0 = "st\<lparr>queue := drop 4 (queue st)\<rparr>"
    from Suc.prems(1) False obtain r1 st1 where b: "build_all n P ?items ?st0 = Some (r1, st1)"
      by (cases "build_all n P ?items ?st0") auto
    have i: "\<forall>d\<in>set ?items. cb_users d \<subseteq> U"
      using Suc.prems(2) by (auto simp: queue_ok_def dest: in_set_takeD)
    have q0: "queue_ok U ?st0"
      using Suc.prems(2) by (auto simp: queue_ok_def dest: in_set_dropD)
    from build_all_walked[OF b i q0]
    have w1: "walked U ?st0 st1" and q1: "queue_ok U st1"
      and p1: "set (drop 4 (queue st)) \<subseteq> set (queue st1)"
      and f1: "r1 = Inr () \<longrightarrow> (\<forall>d\<in>set ?items. dest d \<in> files st1)" by auto
    have w0: "walked U st ?st0" by (auto simp: walked_def)
    show ?thesis
    proof (cases r1)
      case (Inl e)
      with Suc.prems(1) False b have "r = Inl e" "st' = st1" by auto
      with walked_trans[OF w0 w1] show ?thesis by simp
    next
      case (Inr u1)
      with Suc.prems(1) False b have rest: "drain n P st1 = Some (r, st')" by simp
      from Suc.IH[OF rest q1]
      have w2: "walked U st1 st'"
        and f2: "r = Inr () \<longrightarrow> queue st' = [] \<and> (\<forall>d\<in>set (queue st1). dest d \<in> files st')"
        by auto
      have ff: "files st1 \<subseteq> files st'" using w2 by (simp add: walked_def)
      have "set (queue st) = set ?items \<union> set (drop 4 (queue st))"
        by (metis append_take_drop_id set_append)
      with f1 f2 p1 ff Inr have "r = Inr () \<longrightarrow> (\<forall>d\<in>set (queue st). dest d \<in> files st')"
        by auto
      with walked_trans[OF walked_trans[OF w0 w1] w2] f2 show ?thesis by simp
    qed
  qed
qed


lemma start_planner_fields:
  "trace (start_planner q seed s) = trace s @ [OnStart (length q)]"
  "queue (start_planner q seed s) = map init_events q"
  "possibleExtraneous (start_planner q seed s) = fold set_add seed []"
  "files (start_planner q seed s) = {}"
  "actions (start_planner q seed s) = []"
  "world (start_planner q seed s) = world s"
  by (simp_all add: start_planner_def emit_def sys.defs)



























lemma isFile_kind: "isFile s \<Longrightarrow> \<not> isDirectory s \<and> \<not> isSymbolicLink s"
  by (simp add: stat_defs)

lemma call_fields [simp]:
  "actions (call cb st) = actions st"
  "queue (call cb st) = queue st"
  "files (call cb st) = files st"
  "possibleExtraneous (call cb st) = possibleExtraneous st"
  "world (call cb st) = world st"
  by (simp_all add: call_eq)

lemma call_no_copy: "list_all (\<lambda>e. \<not> is_copy_ev e) (call_events cb rm)"
  by (induction cb arbitrary: rm) auto



section \<open>Lemmas about the deletion pass\<close>











section \<open>Lemmas about the executor\<close>

lemma remove_extraneous_trace:
  "remove_extraneous P locs st = (r, st') \<Longrightarrow>
     \<exists>t. trace st' = trace st @ t \<and> list_all (walk_ev UNIV U) t"
proof (induction locs arbitrary: st)
  case Nil
  then show ?case by simp
next
  case (Cons loc locs)
  show ?case
  proof (cases "loc \<in> files st")
    case True
    with Cons show ?thesis by simp
  next
    case False
    obtain r1 st1 where u: "unlink P loc st = (r1, st1)" by (cases "unlink P loc st")
    then obtain t1 where t1: "trace st1 = trace st @ t1" "list_all (walk_ev UNIV U) t1"
      by (auto simp: unlink_def promisify_def split: prod.splits sum.splits)
    show ?thesis
    proof (cases r1)
      case (Inl e)
      with Cons.prems False u have "st' = st1" by simp
      with t1 show ?thesis by blast
    next
      case (Inr u1)
      with Cons.prems False u have "remove_extraneous P locs st1 = (r, st')" by simp
      from Cons.IH[OF this] obtain t2 where "trace st' = trace st1 @ t2" "list_all (walk_ev UNIV U) t2"
        by blast
      with t1 have "trace st' = trace st @ (t1 @ t2) \<and> list_all (walk_ev UNIV U) (t1 @ t2)" by simp
      then show ?thesis by blast
    qed
  qed
qed

lemma cb_users_init_events: "cb_users (init_events d) = users (or_noop (onFresh d))"
  by (simp add: cb_users_def init_events_def or_noop_def)

lemma plan_trace:
  assumes run: "buildActionsForCopy n P q seed s = Some (r, st')"
    and U: "\<forall>d\<in>set q. users (or_noop (onFresh d)) \<subseteq> U"
  shows "\<exists>t. trace st' = trace s @ OnStart (length q) # t \<and> list_all (walk_ev UNIV U) t"
proof -
  let ?st0 = "start_planner q seed s"
  from run obtain r1 st1 where d: "drain n P ?st0 = Some (r1, st1)"
    by (cases "drain n P ?st0") (auto simp: buildActionsForCopy_def)
  have "queue_ok U ?st0"
    using U by (auto simp: queue_ok_def start_planner_fields cb_users_init_events)
  from drain_walked[OF d this] obtain t1 where
    t1: "trace st1 = trace ?st0 @ t1" "list_all (walk_ev (files st1) U) t1"
    unfolding walked_def by blast
  have t1': "list_all (walk_ev UNIV U) t1"
    using t1(2) by (auto simp: list_all_iff intro: walk_ev_mono)
  show ?thesis
  proof (cases r1)
    case (Inl e)
    with run d have "st' = st1" by (simp add: buildActionsForCopy_def)
    with t1 t1' show ?thesis by (simp add: start_planner_fields)
  next
    case (Inr u1)
    obtain r2 st2 where re: "remove_extraneous P (possibleExtraneous st1) st1 = (r2, st2)"
      by (cases "remove_extraneous P (possibleExtraneous st1) st1")
    with run d Inr have "st' = st2"
      by (cases r2) (auto simp: buildActionsForCopy_def)
    moreover from remove_extraneous_trace[OF re] obtain t2 where
      "trace st2 = trace st1 @ t2" "list_all (walk_ev UNIV U) t2" by blast
    ultimately have "trace st' = trace s @ OnStart (length q) # (t1 @ t2)
        \<and> list_all (walk_ev UNIV U) (t1 @ t2)"
      using t1 t1' by (simp add: start_planner_fields)
    then show ?thesis by blast
  qed
qed

lemma promisify_trace:
  "promisify ev f s = (r, s') \<Longrightarrow>
     trace s' = trace s @ ev # (case r of Inl e \<Rightarrow> [Rejected e] | Inr a \<Rightarrow> [])"
  by (auto simp: promisify_def split: prod.splits sum.splits)

lemma copy_file_trace:
  assumes "copy_file P (FileAction sr d at mt md) s = (r, s')"
  shows "\<exists>t. trace s' = trace s @ t
       \<and> list_all (\<lambda>e. \<not> is_link_ev e \<and> \<not> is_start e \<and> (\<forall>j. e \<noteq> Called j)) t
       \<and> (r = Inr () \<longrightarrow> t = [Pipe sr d md, Utimes d at mt, OnProgress d])"
proof -
  obtain r1 s1 where p: "pipe P sr d md s = (r1, s1)" by (cases "pipe P sr d md s")
  note t1 = promisify_trace[OF p[unfolded pipe_def]]
  show ?thesis
  proof (cases r1)
    case (Inl e)
    with assms p have "r = Inl e" "s' = s1" by auto
    with t1 Inl show ?thesis by simp
  next
    case (Inr u1)
    obtain r2 s2 where u: "utimes P d at mt s1 = (r2, s2)" by (cases "utimes P d at mt s1")
    note t2 = promisify_trace[OF u[unfolded utimes_def]]
    show ?thesis
    proof (cases r2)
      case (Inl e)
      with assms p u Inr have "r = Inl e" "s' = s2" by auto
      with t1 t2 Inl Inr show ?thesis by simp
    next
      case r2: (Inr u2)
      with assms p u Inr have "r = Inr ()" "s' = emit (OnProgress d) s2" by auto
      with t1 t2 r2 Inr show ?thesis by (simp add: emit_def)
    qed
  qed
qed

lemma make_symlink_trace:
  assumes "make_symlink P (SymlinkAction d l) s = (r, s')"
  shows "\<exists>t. trace s' = trace s @ t
       \<and> list_all (\<lambda>e. \<not> is_copy_ev e \<and> \<not> is_start e \<and> (\<forall>j. e \<noteq> Called j)) t
       \<and> (r = Inr () \<longrightarrow> t = [FsSymlink l d False])"
proof -
  from assms have "fsSymlink P l d False s = (r, s')" by simp
  note t = promisify_trace[OF this[unfolded fsSymlink_def]]
  show ?thesis using t by (cases r) auto
qed

lemma copy_phase:
  "promise_queue acts (copy_file P) k s = (r, s') \<Longrightarrow> list_all is_file_action acts \<Longrightarrow>
     \<exists>t. trace s' = trace s @ t \<and> list_all (\<lambda>e. \<not> is_link_ev e \<and> \<not> is_start e \<and> (\<forall>j. e \<noteq> Called j)) t
       \<and> (r = Inr () \<longrightarrow> t = concat (map copy_events acts))"
proof (induction acts arbitrary: s)
  case Nil
  then show ?case by simp
next
  case (Cons a acts)
  from Cons.prems(2) obtain sr d at mt md where a: "a = FileAction sr d at mt md"
    by (cases a) auto
  obtain r1 s1 where c: "copy_file P a s = (r1, s1)" by (cases "copy_file P a s")
  from copy_file_trace[OF c[unfolded a]] a obtain t1 where t1: "trace s1 = trace s @ t1"
    "list_all (\<lambda>e. \<not> is_link_ev e \<and> \<not> is_start e \<and> (\<forall>j. e \<noteq> Called j)) t1"
    "r1 = Inr () \<longrightarrow> t1 = copy_events a"
    by auto
  show ?case
  proof (cases r1)
    case (Inl e)
    with Cons.prems(1) c have "r = Inl e" "s' = s1" by auto
    with t1 show ?thesis by auto
  next
    case (Inr u1)
    with Cons.prems(1) c have "promise_queue acts (copy_file P) k s1 = (r, s')" by simp
    from Cons.IH[OF this] Cons.prems(2) obtain t2 where "trace s' = trace s1 @ t2"
      "list_all (\<lambda>e. \<not> is_link_ev e \<and> \<not> is_start e \<and> (\<forall>j. e \<noteq> Called j)) t2"
      "r = Inr () \<longrightarrow> t2 = concat (map copy_events acts)" by auto
    with t1 Inr have "trace s' = trace s @ (t1 @ t2)
       \<and> list_all (\<lambda>e. \<not> is_link_ev e \<and> \<not> is_start e \<and> (\<forall>j. e \<noteq> Called j)) (t1 @ t2)
       \<and> (r = Inr () \<longrightarrow> t1 @ t2 = concat (map copy_events (a # acts)))" by simp
    then show ?thesis by blast
  qed
qed

lemma link_phase:
  "promise_queue acts (make_symlink P) k s = (r, s') \<Longrightarrow> list_all is_symlink_action acts \<Longrightarrow>
     \<exists>t. trace s' = trace s @ t \<and> list_all (\<lambda>e. \<not> is_copy_ev e \<and> \<not> is_start e \<and> (\<forall>j. e \<noteq> Called j)) t
       \<and> (r = Inr () \<longrightarrow> t = concat (map link_events acts))"
proof (induction acts arbitrary: s)
  case Nil
  then show ?case by simp
next
  case (Cons a acts)
  from Cons.prems(2) obtain d l where a: "a = SymlinkAction d l"
    by (cases a) auto
  obtain r1 s1 where c: "make_symlink P a s = (r1, s1)" by (cases "make_symlink P a s")
  from make_symlink_trace[OF c[unfolded a]] a obtain t1 where t1: "trace s1 = trace s @ t1"
    "list_all (\<lambda>e. \<not> is_copy_ev e \<and> \<not> is_start e \<and> (\<forall>j. e \<noteq> Called j)) t1"
    "r1 = Inr () \<longrightarrow> t1 = link_events a"
    by auto
  show ?case
  proof (cases r1)
    case (Inl e)
    with Cons.prems(1) c have "r = Inl e" "s' = s1" by auto
    with t1 show ?thesis by auto
  next
    case (Inr u1)
    with Cons.prems(1) c have "promise_queue acts (make_symlink P) k s1 = (r, s')" by simp
    from Cons.IH[OF this] Cons.prems(2) obtain t2 where "trace s' = trace s1 @ t2"
      "list_all (\<lambda>e. \<not> is_copy_ev e \<and> \<not> is_start e \<and> (\<forall>j. e \<noteq> Called j)) t2"
      "r = Inr () \<longrightarrow> t2 = concat (map link_events acts)" by auto
    with t1 Inr have "trace s' = trace s @ (t1 @ t2)
       \<and> list_all (\<lambda>e. \<not> is_copy_ev e \<and> \<not> is_start e \<and> (\<forall>j. e \<noteq> Called j)) (t1 @ t2)
       \<and> (r = Inr () \<longrightarrow> t1 @ t2 = concat (map link_events (a # acts)))" by simp
    then show ?thesis by blast
  qed
qed

lemma trace_truncate [simp]: "trace (sys.truncate st) = trace st"
  by (simp add: sys.defs)

lemma copyBulk_trace:
  assumes run: "copyBulk n P q seed s = Some (r, s')"
    and U: "\<forall>d\<in>set q. users (or_noop (onFresh d)) \<subseteq> U"
  shows "\<exists>t1 t2 t3. list_all (walk_ev UNIV U) t1
      \<and> list_all (\<lambda>e. \<not> is_link_ev e \<and> \<not> is_start e \<and> (\<forall>j. e \<noteq> Called j)) t2
      \<and> list_all (\<lambda>e. \<not> is_copy_ev e \<and> \<not> is_start e \<and> (\<forall>j. e \<noteq> Called j)) t3
      \<and> (case buildActionsForCopy n P q seed s of
            Some (Inr acts, st1) \<Rightarrow>
              trace s' = trace s @ OnStart (length q) # t1 @ OnStart (length acts) # t2 @ t3
              \<and> (r = Inr () \<longrightarrow> t2 = concat (map copy_events (filter is_file_action acts))
                                \<and> t3 = concat (map link_events (filter is_symlink_action acts)))
          | _ \<Rightarrow> trace s' = trace s @ OnStart (length q) # t1 \<and> t2 = [] \<and> t3 = [] \<and> r \<noteq> Inr ())"
proof -
  from run obtain r1 st1 where b: "buildActionsForCopy n P q seed s = Some (r1, st1)"
    by (cases "buildActionsForCopy n P q seed s") (auto simp: copyBulk_def)
  from plan_trace[OF b U] obtain t1 where
    t1: "trace st1 = trace s @ OnStart (length q) # t1" "list_all (walk_ev UNIV U) t1" by blast
  show ?thesis
  proof (cases r1)
    case (Inl e)
    with run b have "s' = sys.truncate st1" "r = Inl e" by (auto simp: copyBulk_def)
    with t1 b Inl show ?thesis by auto
  next
    case (Inr acts)
    let ?s2 = "emit (OnStart (length acts)) (sys.truncate st1)"
    let ?fa = "filter is_file_action acts"
    let ?sa = "filter is_symlink_action acts"
    obtain r3 s3 where cp: "promise_queue ?fa (copy_file P) (Some 4) ?s2 = (r3, s3)"
      by (cases "promise_queue ?fa (copy_file P) (Some 4) ?s2")
    from copy_phase[OF cp] obtain t2 where
      t2: "trace s3 = trace ?s2 @ t2"
      "list_all (\<lambda>e. \<not> is_link_ev e \<and> \<not> is_start e \<and> (\<forall>j. e \<noteq> Called j)) t2"
      "r3 = Inr () \<longrightarrow> t2 = concat (map copy_events ?fa)"
      by (auto simp: list_all_iff)
    have s2: "trace ?s2 = trace s @ OnStart (length q) # t1 @ [OnStart (length acts)]"
      using t1 by (simp add: emit_def)
    show ?thesis
    proof (cases r3)
      case (Inl e)
      with run b Inr cp have "s' = s3" "r = Inl e" by (auto simp: copyBulk_def Let_def)
      with t1 t2 s2 b Inr show ?thesis
        by (intro exI[of _ t1] exI[of _ t2] exI[of _ "[]"]) auto
    next
      case u: (Inr u3)
      with run b Inr cp have lk: "promise_queue ?sa (make_symlink P) None s3 = (r, s')"
        by (auto simp: copyBulk_def Let_def)
      from link_phase[OF lk] obtain t3 where
        t3: "trace s' = trace s3 @ t3"
        "list_all (\<lambda>e. \<not> is_copy_ev e \<and> \<not> is_start e \<and> (\<forall>j. e \<noteq> Called j)) t3"
        "r = Inr () \<longrightarrow> t3 = concat (map link_events ?sa)"
        by (auto simp: list_all_iff)
      from t1 t2 t3 s2 b Inr u show ?thesis
        by (intro exI[of _ t1] exI[of _ t2] exI[of _ t3]) auto
    qed
  qed
qed

lemma copy_file_fail:
  assumes "copy_file P (FileAction sr d at mt md) s = (Inl e, s')"
  shows "\<exists>t. trace s' = trace s @ t \<and> t \<noteq> [] \<and> last t = Rejected e"
proof -
  obtain r1 s1 where p: "pipe P sr d md s = (r1, s1)" by (cases "pipe P sr d md s")
  note t1 = promisify_trace[OF p[unfolded pipe_def]]
  show ?thesis
  proof (cases r1)
    case (Inl e1)
    with assms p have "e1 = e" "s' = s1" by auto
    with t1 Inl show ?thesis by simp
  next
    case (Inr u1)
    obtain r2 s2 where u: "utimes P d at mt s1 = (r2, s2)" by (cases "utimes P d at mt s1")
    note t2 = promisify_trace[OF u[unfolded utimes_def]]
    from assms p u Inr obtain e2 where "r2 = Inl e2" "e2 = e" "s' = s2"
      by (cases r2) auto
    with t1 t2 Inr show ?thesis by simp
  qed
qed

lemma copy_phase_fail:
  "promise_queue acts (copy_file P) k s = (Inl e, s') \<Longrightarrow> list_all is_file_action acts \<Longrightarrow>
     \<exists>t. trace s' = trace s @ t \<and> t \<noteq> [] \<and> last t = Rejected e"
proof (induction acts arbitrary: s)
  case Nil
  then show ?case by simp
next
  case (Cons a acts)
  from Cons.prems(2) obtain sr d at mt md where a: "a = FileAction sr d at mt md"
    by (cases a) auto
  obtain r1 s1 where c: "copy_file P a s = (r1, s1)" by (cases "copy_file P a s")
  show ?case
  proof (cases r1)
    case (Inl e1)
    with Cons.prems(1) c have "e1 = e" "s' = s1" by auto
    with c Inl a copy_file_fail show ?thesis by blast
  next
    case (Inr u1)
    from copy_file_trace[OF c[unfolded a]] obtain t1 where t1: "trace s1 = trace s @ t1" by blast
    from Cons.prems(1) c Inr have "promise_queue acts (copy_file P) k s1 = (Inl e, s')" by simp
    from Cons.IH[OF this] Cons.prems(2) obtain t2 where
      "trace s' = trace s1 @ t2" "t2 \<noteq> []" "last t2 = Rejected e" by auto
    with t1 have "trace s' = trace s @ (t1 @ t2) \<and> t1 @ t2 \<noteq> [] \<and> last (t1 @ t2) = Rejected e"
      by simp
    then show ?thesis by blast
  qed
qed

lemma link_phase_fail:
  "promise_queue acts (make_symlink P) k s = (Inl e, s') \<Longrightarrow> list_all is_symlink_action acts \<Longrightarrow>
     \<exists>j<length acts. trace s' = trace s @ concat (map link_events (take (Suc j) acts)) @ [Rejected e]"
proof (induction acts arbitrary: s)
  case Nil
  then show ?case by simp
next
  case (Cons a acts)
  from Cons.prems(2) obtain d l where a: "a = SymlinkAction d l"
    by (cases a) auto
  obtain r1 s1 where c: "make_symlink P a s = (r1, s1)" by (cases "make_symlink P a s")
  then have "fsSymlink P l d False s = (r1, s1)" using a by simp
  note t1 = promisify_trace[OF this[unfolded fsSymlink_def]]
  show ?case
  proof (cases r1)
    case (Inl e1)
    with Cons.prems(1) c have "e1 = e" "s' = s1" by auto
    with t1 Inl a have "trace s' = trace s @ concat (map link_events (take (Suc 0) (a # acts))) @ [Rejected e]"
      by simp
    then show ?thesis by blast
  next
    case (Inr u1)
    with Cons.prems(1) c have "promise_queue acts (make_symlink P) k s1 = (Inl e, s')" by simp
    from Cons.IH[OF this] Cons.prems(2) obtain j where j: "j < length acts"
      "trace s' = trace s1 @ concat (map link_events (take (Suc j) acts)) @ [Rejected e]" by auto
    with t1 Inr a have "trace s' = trace s @ concat (map link_events (take (Suc (Suc j)) (a # acts))) @ [Rejected e]"
      by simp
    with j(1) show ?thesis by (intro exI[of _ "Suc j"]) simp
  qed
qed

lemma copyBulk_phases:
  assumes run: "copyBulk n P q seed s = Some (r, s')"
    and plan: "buildActionsForCopy n P q seed s = Some (Inr acts, st1)"
  shows "\<exists>t2 t3. trace s' = trace st1 @ OnStart (length acts) # t2 @ t3
      \<and> list_all (\<lambda>e. \<not> is_link_ev e) t2 \<and> list_all (\<lambda>e. \<not> is_copy_ev e) t3
      \<and> phases (filter is_file_action acts) (filter is_symlink_action acts) t2 t3 r"
proof -
  let ?s2 = "emit (OnStart (length acts)) (sys.truncate st1)"
  let ?fa = "filter is_file_action acts"
  let ?sa = "filter is_symlink_action acts"
  have s2: "trace ?s2 = trace st1 @ [OnStart (length acts)]" by (simp add: emit_def)
  obtain r3 s3 where cp: "promise_queue ?fa (copy_file P) (Some 4) ?s2 = (r3, s3)"
    by (cases "promise_queue ?fa (copy_file P) (Some 4) ?s2")
  from copy_phase[OF cp] obtain t2 where
    t2: "trace s3 = trace ?s2 @ t2" "list_all (\<lambda>e. \<not> is_link_ev e) t2"
    "r3 = Inr () \<longrightarrow> t2 = concat (map copy_events ?fa)"
    by (auto simp: list_all_iff)
  show ?thesis
  proof (cases r3)
    case (Inl e)
    with run plan cp have e: "s' = s3" "r = Inl e" by (auto simp: copyBulk_def Let_def)
    have "list_all is_file_action ?fa" by (simp add: list_all_iff)
    from copy_phase_fail[OF cp[unfolded Inl] this] t2(1) have "t2 \<noteq> []" "last t2 = Rejected e"
      by auto
    with e t2 s2 show ?thesis
      by (intro exI[of _ t2] exI[of _ "[]"]) (simp add: phases_def)
  next
    case u: (Inr u3)
    with run plan cp have lk: "promise_queue ?sa (make_symlink P) None s3 = (r, s')"
      by (auto simp: copyBulk_def Let_def)
    from link_phase[OF lk] obtain t3 where
      t3: "trace s' = trace s3 @ t3" "list_all (\<lambda>e. \<not> is_copy_ev e) t3"
      "r = Inr () \<longrightarrow> t3 = concat (map link_events ?sa)"
      by (auto simp: list_all_iff)
    from u t2(3) have c2: "t2 = concat (map copy_events ?fa)" by simp
    have "phases ?fa ?sa t2 t3 r"
    proof (cases r)
      case (Inr u4)
      with t3(3) c2 show ?thesis by (simp add: phases_def)
    next
      case (Inl e)
      have "list_all is_symlink_action ?sa" by (simp add: list_all_iff)
      from link_phase_fail[OF lk[unfolded Inl] this] obtain j where j: "j < length ?sa"
        "trace s' = trace s3 @ concat (map link_events (take (Suc j) ?sa)) @ [Rejected e]"
        by auto
      with t3(1) have "t3 = concat (map link_events (take (Suc j) ?sa)) @ [Rejected e]" by simp
      with j(1) c2 Inl show ?thesis
        by (auto simp: phases_def list_ex_iff)
    qed
    with t2 t3 s2 show ?thesis
      by (intro exI[of _ t2] exI[of _ t3]) simp
  qed
qed

lemma walk_ev_plain: "walk_ev F U e \<Longrightarrow> \<not> is_start e \<and> \<not> is_copy_ev e \<and> \<not> is_link_ev e"
  by (cases e) auto

lemma walk_ev_user: "walk_ev F U e \<Longrightarrow> k \<notin> U \<Longrightarrow> e \<noteq> Called k"
  by (cases e) auto

section \<open>Lemmas about \<open>symlink\<close>\<close>

lemma catch_enoent_eq:
  "catch_enoent e s = (r, s') \<Longrightarrow>
     s' = s \<and> (case r of Inl e' \<Rightarrow> e' = e \<and> code e \<noteq> Some ''ENOENT''
                | Inr b \<Rightarrow> \<not> b \<and> code e = Some ''ENOENT'')"
  by (auto simp: catch_enoent_def split: if_splits)

lemma unlink_dest_ok:
  assumes "unlink_dest P d s = (r, s')"
  shows "\<exists>t. trace s' = trace s @ t \<and> block_ok t r"
proof -
  obtain r1 s1 where u: "unlink P d s = (r1, s1)" by (cases "unlink P d s")
  note t = promisify_trace[OF u[unfolded unlink_def]]
  show ?thesis
  proof (cases r1)
    case (Inl e)
    with assms u have "catch_enoent e s1 = (r, s')" by (simp add: unlink_dest_def)
    from catch_enoent_eq[OF this] t Inl show ?thesis
      by (cases r) (auto simp: block_ok_def)
  next
    case (Inr u1)
    with assms u have "r = Inr False" "s' = s1" by (auto simp: unlink_dest_def)
    with t Inr show ?thesis by (simp add: block_ok_def)
  qed
qed

lemma not_rejected_enoent: "\<not> is_rejected ev \<Longrightarrow> rejected_enoent ev"
  by (cases ev) auto

lemma block_ok_append:
  "list_all (\<lambda>ev. \<not> is_rejected ev) t1 \<Longrightarrow> block_ok t2 r \<Longrightarrow> block_ok (t1 @ t2) r"
  by (cases r) (auto simp: block_ok_def list_all_iff not_rejected_enoent)

lemma remove_existing_ok:
  assumes "remove_existing P sr d s = (r, s')"
  shows "\<exists>t. trace s' = trace s @ t \<and> block_ok t r"
proof -
  obtain r1 s1 where l: "lstat P d s = (r1, s1)" by (cases "lstat P d s")
  note t1 = promisify_trace[OF l[unfolded lstat_def]]
  show ?thesis
  proof (cases r1)
    case (Inl e)
    with assms l have "catch_enoent e s1 = (r, s')" by (simp add: remove_existing_def)
    from catch_enoent_eq[OF this] t1 Inl show ?thesis
      by (cases r) (auto simp: block_ok_def)
  next
    case (Inr stats)
    have ud: "\<exists>t. trace s' = trace s @ t \<and> block_ok t r"
      if "unlink_dest P d s2 = (r, s')" "trace s2 = trace s @ t2"
        "list_all (\<lambda>ev. \<not> is_rejected ev) t2" for s2 t2
    proof -
      from unlink_dest_ok[OF that(1)] obtain t where "trace s' = trace s2 @ t" "block_ok t r"
        by blast
      with that(2) block_ok_append[OF that(3)] have "trace s' = trace s @ (t2 @ t)"
        "block_ok (t2 @ t) r" by auto
      then show ?thesis by blast
    qed
    show ?thesis
    proof (cases "isSymbolicLink stats")
      case False
      with assms l Inr have "unlink_dest P d s1 = (r, s')" by (simp add: remove_existing_def)
      from ud[OF this] t1 Inr show ?thesis by simp
    next
      case True
      obtain b s2 where e: "exists P d s1 = (b, s2)" by (cases "exists P d s1")
      note t2 = promisify_first_data_trace[OF e[unfolded exists_def]]
      show ?thesis
      proof (cases b)
        case False
        with assms l Inr True e have "unlink_dest P d s2 = (r, s')"
          by (simp add: remove_existing_def)
        from ud[OF this] t1 t2 Inr show ?thesis by simp
      next
        case b: True
        obtain r3 s3 where rp: "realpath P d s2 = (r3, s3)" by (cases "realpath P d s2")
        note t3 = promisify_trace[OF rp[unfolded realpath_def]]
        show ?thesis
        proof (cases r3)
          case (Inl e3)
          with assms l Inr True e b rp have "catch_enoent e3 s3 = (r, s')"
            by (simp add: remove_existing_def)
          from catch_enoent_eq[OF this] t1 t2 t3 Inl \<open>r1 = Inr stats\<close> show ?thesis
            by (cases r) (auto simp: block_ok_def)
        next
          case r3: (Inr resolved)
          show ?thesis
          proof (cases "resolved = sr")
            case same: True
            with assms l Inr True e b rp r3 have "r = Inr True" "s' = s3"
              by (auto simp: remove_existing_def)
            with t1 t2 t3 Inr r3 show ?thesis by (simp add: block_ok_def)
          next
            case False
            with assms l Inr True e b rp r3 have "unlink_dest P d s3 = (r, s')"
              by (simp add: remove_existing_def)
            from ud[OF this] t1 t2 t3 Inr r3 show ?thesis by simp
          qed
        qed
      qed
    qed
  qed
qed

section \<open>Lemmas about \<open>walk\<close>\<close>
























section \<open>The claims\<close>





text \<open>
  C2. The events that a call of \<open>copyBulk\<close> adds to the trace fall into three
  consecutive parts: planning and \<open>onStart\<close>, with no stream copy, no \<open>utimes\<close> and no
  symlink creation; then the file-copy phase, with no symlink creation; then the
  symlink phase, with no stream copy and no \<open>utimes\<close>. Whether the call succeeds or
  fails, the symlink phase is empty unless the file-copy phase is, for every file
  action of the plan, its stream copy, its \<open>utimes\<close> and its progress report: no
  symlink creation starts before every file copy has completed. When the file-copy
  phase fails, it ends with the rejection, which is the result, and no symlink is
  created. When the call succeeds, the symlink phase is one creation for every symlink
  action; when a creation fails, it is the last event but for its rejection. When
  planning fails, both phases are empty.
\<close>

theorem symlinks_after_file_copies:
  assumes "copyBulk n P q seed s = Some (r, s')"
  shows "\<exists>t1 t2 t3. trace s' = trace s @ t1 @ t2 @ t3
      \<and> list_all (\<lambda>e. \<not> is_copy_ev e \<and> \<not> is_link_ev e) t1
      \<and> list_all (\<lambda>e. \<not> is_link_ev e) t2
      \<and> list_all (\<lambda>e. \<not> is_copy_ev e) t3
      \<and> (case buildActionsForCopy n P q seed s of
            Some (Inr acts, st1) \<Rightarrow>
              phases (filter is_file_action acts) (filter is_symlink_action acts) t2 t3 r
          | _ \<Rightarrow> t2 = [] \<and> t3 = [] \<and> r \<noteq> Inr ())"
proof -
  from assms obtain r1 st1 where b: "buildActionsForCopy n P q seed s = Some (r1, st1)"
    by (cases "buildActionsForCopy n P q seed s") (auto simp: copyBulk_def)
  have "\<forall>d\<in>set q. users (or_noop (onFresh d)) \<subseteq> UNIV" by simp
  from plan_trace[OF b this] obtain t1 where
    t1: "trace st1 = trace s @ OnStart (length q) # t1" "list_all (walk_ev UNIV UNIV) t1" by blast
  have p1: "list_all (\<lambda>e. \<not> is_copy_ev e \<and> \<not> is_link_ev e) (OnStart (length q) # t1)"
    using t1(2) by (auto simp: list_all_iff dest: walk_ev_plain)
  show ?thesis
  proof (cases r1)
    case (Inl e)
    with assms b have "s' = sys.truncate st1" "r = Inl e" by (auto simp: copyBulk_def)
    with t1 p1 b Inl show ?thesis
      by (intro exI[of _ "OnStart (length q) # t1"] exI[of _ "[]"]) simp
  next
    case (Inr acts)
    from copyBulk_phases[OF assms b[unfolded Inr]] obtain t2 t3 where
      "trace s' = trace st1 @ OnStart (length acts) # t2 @ t3"
      "list_all (\<lambda>e. \<not> is_link_ev e) t2" "list_all (\<lambda>e. \<not> is_copy_ev e) t3"
      "phases (filter is_file_action acts) (filter is_symlink_action acts) t2 t3 r" by blast
    with t1 p1 b Inr show ?thesis
      by (intro exI[of _ "OnStart (length q) # t1 @ [OnStart (length acts)]"]
            exI[of _ t2] exI[of _ t3]) simp
  qed
qed


theorem symlinks_after_file_copies_witness:
  "(\<exists>s'. copyBulk (Suc (Suc (Suc 0))) memfs [req3] [] (boot fs3) = Some (Inr (), s')
      \<and> (\<exists>t1 t2 t3. trace s' = trace (boot fs3) @ t1 @ t2 @ t3
            \<and> list_all (\<lambda>e. \<not> is_copy_ev e \<and> \<not> is_link_ev e) t1
            \<and> t2 = [Pipe [''S'', ''a''] [''D'', ''a''] 33188, Utimes [''D'', ''a''] 5 5,
                     OnProgress [''D'', ''a'']]
            \<and> t3 = [FsSymlink [''S'', ''a''] [''D'', ''l''] False]))
   \<and> (\<exists>s'. copyBulk (Suc (Suc 0)) memfs [req_a, req_l] [] (boot fs3) = Some (Inl ENOENT, s')
      \<and> filter is_link_ev (trace s') = []
      \<and> (\<exists>t1 t2 t3. trace s' = trace (boot fs3) @ t1 @ t2 @ t3
            \<and> list_all (\<lambda>e. \<not> is_copy_ev e \<and> \<not> is_link_ev e) t1
            \<and> list_all (\<lambda>e. \<not> is_link_ev e) t2
            \<and> phases [FileAction [''S'', ''a''] [''D'', ''a''] 5 5 33188]
                 [SymlinkAction [''D'', ''l''] [''S'', ''a'']] t2 t3 (Inl ENOENT)))"
proof -
  have "\<exists>s'. copyBulk (Suc (Suc (Suc 0))) memfs [req3] [] (boot fs3) = Some (Inr (), s')"
    and b: "\<exists>st1. buildActionsForCopy (Suc (Suc (Suc 0))) memfs [req3] [] (boot fs3)
       = Some (Inr [FileAction [''S'', ''a''] [''D'', ''a''] 5 5 33188,
                    SymlinkAction [''D'', ''l''] [''S'', ''a'']], st1)"
    by (simp_all add: prim_defs mem_defs stat_defs plan_defs run_defs fs3_def req3_def Let_def
        add_parts_Nil add_parts_Cons)
  then obtain s' where
    run: "copyBulk (Suc (Suc (Suc 0))) memfs [req3] [] (boot fs3) = Some (Inr (), s')" by blast
  from symlinks_after_file_copies[OF run] b run
  have one: "\<exists>s'. copyBulk (Suc (Suc (Suc 0))) memfs [req3] [] (boot fs3) = Some (Inr (), s')
      \<and> (\<exists>t1 t2 t3. trace s' = trace (boot fs3) @ t1 @ t2 @ t3
            \<and> list_all (\<lambda>e. \<not> is_copy_ev e \<and> \<not> is_link_ev e) t1
            \<and> t2 = [Pipe [''S'', ''a''] [''D'', ''a''] 33188, Utimes [''D'', ''a''] 5 5,
                     OnProgress [''D'', ''a'']]
            \<and> t3 = [FsSymlink [''S'', ''a''] [''D'', ''l''] False])"
    by (fastforce simp: phases_def)
  have "\<exists>s'. copyBulk (Suc (Suc 0)) memfs [req_a, req_l] [] (boot fs3) = Some (Inl ENOENT, s')
          \<and> filter is_link_ev (trace s') = []"
    and b2: "\<exists>st1. buildActionsForCopy (Suc (Suc 0)) memfs [req_a, req_l] [] (boot fs3)
       = Some (Inr [FileAction [''S'', ''a''] [''D'', ''a''] 5 5 33188,
                    SymlinkAction [''D'', ''l''] [''S'', ''a'']], st1)"
    by (simp_all add: prim_defs mem_defs stat_defs plan_defs run_defs fs3_def req_a_def req_l_def
        Let_def add_parts_Nil add_parts_Cons)
  then obtain s2 where
    run2: "copyBulk (Suc (Suc 0)) memfs [req_a, req_l] [] (boot fs3) = Some (Inl ENOENT, s2)"
    and nl: "filter is_link_ev (trace s2) = []" by blast
  from symlinks_after_file_copies[OF run2] b2 run2 nl
  have two: "\<exists>s'. copyBulk (Suc (Suc 0)) memfs [req_a, req_l] [] (boot fs3) = Some (Inl ENOENT, s')
      \<and> filter is_link_ev (trace s') = []
      \<and> (\<exists>t1 t2 t3. trace s' = trace (boot fs3) @ t1 @ t2 @ t3
            \<and> list_all (\<lambda>e. \<not> is_copy_ev e \<and> \<not> is_link_ev e) t1
            \<and> list_all (\<lambda>e. \<not> is_link_ev e) t2
            \<and> phases [FileAction [''S'', ''a''] [''D'', ''a''] 5 5 33188]
                 [SymlinkAction [''D'', ''l''] [''S'', ''a'']] t2 t3 (Inl ENOENT))"
    by fastforce
  from one two show ?thesis by blast
qed

text \<open>
  C3, the code at a failing input: source \<open>S/a\<close> and destination \<open>D/a\<close> are regular
  files of the same size and modification time, with modes 0100755 and 0100644. Before
  it compares sizes and times, \<open>build\<close> calls \<open>access(dest, srcStat.mode)\<close> for the
  differing modes. A stat mode is not a mask of \<open>R_OK\<close>, \<open>W_OK\<close>, \<open>X_OK\<close>, and
  \<open>access(2)\<close> rejects it with \<open>EINVAL\<close>: \<open>build\<close> fails with that error and the
  request's \<open>onDone\<close>, the progress event for \<open>D/a\<close>, is not called.
\<close>

theorem unchanged_file_probe_rejected:
  "fst (m_lstat [''S'', ''a''] fs4) = Inr \<lparr>mode = 33261, size = 2, atime = 5, mtime = 5\<rparr>
   \<and> fst (m_lstat [''D'', ''a''] fs4) = Inr \<lparr>mode = 33188, size = 2, atime = 5, mtime = 5\<rparr>
   \<and> onDone req_a = Some (Progress [''D'', ''a''])
   \<and> map_option fst (build (Suc 0) memfs req_a (idle fs4)) = Some (Inl (SystemError ''EINVAL''))
   \<and> run_trace (build (Suc 0) memfs req_a (idle fs4))
       = [OnStart 0, Lstat [''S'', ''a''], Exists [''D'', ''a''], Lstat [''D'', ''a''],
          Access [''D'', ''a''] 33261, Rejected (SystemError ''EINVAL'')]"
  by (simp add: prim_defs mem_defs stat_defs plan_defs run_defs fs4_def req_a_def
      idle_def Let_def)

text \<open>
  C3, in every world. Let the source and the destination of a request both be regular
  files with the same size and the same modification time (\<open>lstat\<close> of the source,
  \<open>exists\<close> and \<open>lstat\<close> of the destination resolve so). Then \<open>build\<close> emits no
  action, adds nothing to the queue and starts no stream copy, so the content of the
  source is not read. When the modes are equal, or when the probe
  \<open>access(dest, srcStat.mode)\<close> that the code makes for differing modes resolves,
  \<open>build\<close> returns normally and has called the request's \<open>onDone\<close> once, after these
  reads; when the probe is rejected, \<open>build\<close> fails with the probe's error.
\<close>

theorem unchanged_file_skipped:
  assumes "fs_lstat P (src data) (world st) = (Inr ss, w1)"
    and "fs_exists P (dest data) w1 = (True, w2)"
    and "fs_lstat P (dest data) w2 = (Inr ds, w3)"
    and "isFile ss" "isFile ds" "size ss = size ds" "mtime ss = mtime ds"
    and "if mode ss = mode ds then ra = Inr () \<and> w4 = w3
         else fs_access P (dest data) (mode ss) w3 = (ra, w4)"
  shows "\<exists>r st'. build (Suc n) P data st = Some (r, st')
      \<and> actions st' = actions st \<and> queue st' = queue st
      \<and> list_all (\<lambda>e. \<not> is_copy_ev e) (drop (length (trace st)) (trace st'))
      \<and> (case ra of
            Inl e \<Rightarrow> r = Inl e
          | Inr u \<Rightarrow> r = Inr () \<and>
              st' = call (or_noop (onDone data))
                      (st\<lparr>files := insert (dest data) (files st), world := w4,
                          trace := trace st @
                            [Lstat (src data), Exists (dest data), Lstat (dest data)] @
                            (if mode ss = mode ds then [] else [Access (dest data) (mode ss)])\<rparr>))"
proof (cases "mode ss = mode ds")
  case True
  with assms isFile_kind[OF assms(4)] show ?thesis
    by (simp add: read_source_def compare_dest_def compare_stats_def repair_mode_def
        prim_defs Let_def call_eq call_no_copy)
next
  case False
  with assms isFile_kind[OF assms(4)] show ?thesis
    by (cases ra)
      (simp_all add: read_source_def compare_dest_def compare_stats_def repair_mode_def
        prim_defs Let_def call_eq call_no_copy)
qed

theorem unchanged_file_skipped_witness:
  "fs_lstat memfs (src req_a) (world (idle fs2))
     = (Inr \<lparr>mode = 33188, size = 2, atime = 5, mtime = 5\<rparr>, fs2)
   \<and> fs_exists memfs (dest req_a) fs2 = (True, fs2)
   \<and> (\<exists>r st'. build (Suc 0) memfs req_a (idle fs2) = Some (r, st')
         \<and> actions st' = actions (idle fs2) \<and> queue st' = queue (idle fs2)
         \<and> r = Inr ()
         \<and> trace st' = [OnStart 0, Lstat [''S'', ''a''], Exists [''D'', ''a''],
                         Lstat [''D'', ''a''], OnProgress [''D'', ''a'']])"
proof -
  let ?ss = "\<lparr>mode = 33188, size = 2, atime = 5, mtime = 5\<rparr>"
  have h1: "fs_lstat memfs (src req_a) (world (idle fs2)) = (Inr ?ss, fs2)"
    and h2: "fs_exists memfs (dest req_a) fs2 = (True, fs2)"
    and h3: "fs_lstat memfs (dest req_a) fs2 = (Inr ?ss, fs2)"
    and h4: "isFile ?ss" "size ?ss = size ?ss" "mtime ?ss = mtime ?ss"
    and h5: "if mode ?ss = mode ?ss then (Inr () :: error + unit) = Inr () \<and> fs2 = fs2
             else fs_access memfs (dest req_a) (mode ?ss) fs2 = (Inr (), fs2)"
    by (simp_all add: mem_defs stat_defs idle_def start_planner_fields req_a_def fs2_def)
  from unchanged_file_skipped[OF h1 h2 h3 h4(1) h4(1) h4(2) h4(3) h5, of 0] h1 h2
  show ?thesis
    by (auto simp: idle_def start_planner_fields req_a_def or_noop_def emit_def boot_def)
qed

text \<open>
  C4, the code at a failing input: source \<open>S/a\<close> with mode 0100755, destination \<open>D/a\<close>
  with mode 0100644, same size and modification time. The only call that \<open>build\<close>
  makes for the differing modes is \<open>access(dest, srcStat.mode)\<close>, which changes nothing.
  Where \<open>access\<close> rejects the mode as an invalid mask (POSIX), \<open>build\<close> fails with
  \<open>EINVAL\<close>; where it resolves (\<open>lenient\<close>), \<open>build\<close> returns with no action; in both
  worlds the file system is as before, and after a whole \<open>copyBulk\<close> the mode of the
  destination is still 0100644.
\<close>

theorem mode_not_repaired:
  "fst (m_lstat [''S'', ''a''] fs4) = Inr \<lparr>mode = 33261, size = 2, atime = 5, mtime = 5\<rparr>
   \<and> fst (m_lstat [''D'', ''a''] fs4) = Inr \<lparr>mode = 33188, size = 2, atime = 5, mtime = 5\<rparr>
   \<and> (\<exists>st'. build (Suc 0) memfs req_a (idle fs4) = Some (Inl (SystemError ''EINVAL''), st')
         \<and> world st' = fs4)
   \<and> (\<exists>st'. build (Suc 0) lenient req_a (idle fs4) = Some (Inr (), st')
         \<and> world st' = fs4 \<and> actions st' = []
         \<and> trace st' = [OnStart 0, Lstat [''S'', ''a''], Exists [''D'', ''a''],
                         Lstat [''D'', ''a''], Access [''D'', ''a''] 33261,
                         OnProgress [''D'', ''a'']])
   \<and> (\<exists>s'. copyBulk (Suc (Suc (Suc 0))) lenient [req2] [] (boot fs4) = Some (Inr (), s')
         \<and> fst (m_lstat [''D'', ''a''] (world s'))
             = Inr \<lparr>mode = 33188, size = 2, atime = 5, mtime = 5\<rparr>)"
  by (simp add: prim_defs mem_defs stat_defs plan_defs run_defs fs4_def req_a_def req2_def
      idle_def lenient_def Let_def add_parts_Nil add_parts_Cons)









text \<open>
  C7, as stated, fails: \<open>buildActionsForCopy\<close> calls \<open>events.onStart\<close> with the length
  of the queue (line 84) and \<open>copyBulk\<close> calls it again with the number of actions
  (line 237). For one request whose source is a directory with two files, the start
  callback is called with 1 and then with 2.
\<close>

theorem onStart_counterexample:
  "filter is_start (run_trace (copyBulk (Suc (Suc (Suc 0))) memfs [req1] [] (boot fs1)))
     = [OnStart 1, OnStart 2]"
  by (simp add: prim_defs mem_defs stat_defs plan_defs run_defs fs1_def req1_def Let_def
      add_parts_Nil add_parts_Cons)

text \<open>
  C7, amended. In every call of \<open>copyBulk\<close> the start callback is called first with
  the number of submitted requests, before any planning; when planning returns its
  actions it is called a second time, with the number of actions, after all planning
  events and before any stream copy, \<open>utimes\<close> or symlink creation; it is called at no
  other time, and only once when planning fails.
\<close>

theorem onStart_invoked_twice:
  assumes "copyBulk n P q seed s = Some (r, s')"
  shows "\<exists>t1 t2. list_all (\<lambda>e. \<not> is_start e \<and> \<not> is_copy_ev e \<and> \<not> is_link_ev e) t1
      \<and> list_all (\<lambda>e. \<not> is_start e) t2
      \<and> (case buildActionsForCopy n P q seed s of
            Some (Inr acts, st1) \<Rightarrow>
              trace s' = trace s @ OnStart (length q) # t1 @ OnStart (length acts) # t2
          | _ \<Rightarrow> trace s' = trace s @ OnStart (length q) # t1)"
proof -
  have "\<forall>d\<in>set q. users (or_noop (onFresh d)) \<subseteq> UNIV" by simp
  from copyBulk_trace[OF assms this] obtain t1 t2 t3 where
    t1: "list_all (walk_ev UNIV UNIV) t1" and
    t2: "list_all (\<lambda>e. \<not> is_link_ev e \<and> \<not> is_start e \<and> (\<forall>j. e \<noteq> Called j)) t2" and
    t3: "list_all (\<lambda>e. \<not> is_copy_ev e \<and> \<not> is_start e \<and> (\<forall>j. e \<noteq> Called j)) t3" and
    c: "(case buildActionsForCopy n P q seed s of
            Some (Inr acts, st1) \<Rightarrow>
              trace s' = trace s @ OnStart (length q) # t1 @ OnStart (length acts) # t2 @ t3
              \<and> (r = Inr () \<longrightarrow> t2 = concat (map copy_events (filter is_file_action acts))
                                \<and> t3 = concat (map link_events (filter is_symlink_action acts)))
          | _ \<Rightarrow> trace s' = trace s @ OnStart (length q) # t1 \<and> t2 = [] \<and> t3 = [] \<and> r \<noteq> Inr ())"
    by blast
  have p1: "list_all (\<lambda>e. \<not> is_start e \<and> \<not> is_copy_ev e \<and> \<not> is_link_ev e) t1"
    using t1 by (auto simp: list_all_iff dest: walk_ev_plain)
  have p2: "list_all (\<lambda>e. \<not> is_start e) (t2 @ t3)"
    using t2 t3 by (auto simp: list_all_iff)
  from c p1 p2 show ?thesis
    by (intro exI[of _ t1] exI[of _ "t2 @ t3"])
      (auto split: option.splits sum.splits prod.splits)
qed

theorem onStart_invoked_twice_witness:
  "\<exists>r s'. copyBulk (Suc (Suc (Suc 0))) memfs [req1] [] (boot fs1) = Some (r, s')
      \<and> (\<exists>t1 t2. list_all (\<lambda>e. \<not> is_start e \<and> \<not> is_copy_ev e \<and> \<not> is_link_ev e) t1
            \<and> list_all (\<lambda>e. \<not> is_start e) t2
            \<and> trace s' = trace (boot fs1) @ OnStart 1 # t1 @ OnStart 2 # t2)"
proof -
  have "\<exists>r s'. copyBulk (Suc (Suc (Suc 0))) memfs [req1] [] (boot fs1) = Some (r, s')"
    and b: "\<exists>acts st1. buildActionsForCopy (Suc (Suc (Suc 0))) memfs [req1] [] (boot fs1)
       = Some (Inr acts, st1) \<and> length acts = 2"
    by (simp_all add: prim_defs mem_defs stat_defs plan_defs run_defs fs1_def req1_def Let_def
        add_parts_Nil add_parts_Cons)
  then obtain r s' where
    run: "copyBulk (Suc (Suc (Suc 0))) memfs [req1] [] (boot fs1) = Some (r, s')" by blast
  from onStart_invoked_twice[OF run] b run show ?thesis by fastforce
qed

text \<open>
  C8, as stated, fails: \<open>symlink\<close> calls itself when link creation fails with
  \<open>EEXIST\<close>, and the call that it makes does the same. In \<open>racy\<close>, a world where
  another process creates the destination just before each of the first two creation
  attempts, \<open>symlink\<close> makes three attempts, the second and the third each after
  running the whole operation again, and returns normally; with a single retry the
  second \<open>EEXIST\<close> would have been fatal.
\<close>

theorem symlink_retry_counterexample:
  "map_option fst (symlink (Suc (Suc (Suc 0))) racy ['''', ''a''] ['''', ''l''] (boot (fs6, 2)))
     = Some (Inr ())
   \<and> filter is_link_ev
        (run_trace (symlink (Suc (Suc (Suc 0))) racy ['''', ''a''] ['''', ''l''] (boot (fs6, 2))))
     = [FsSymlink [''a''] ['''', ''l''] False, FsSymlink [''a''] ['''', ''l''] False,
        FsSymlink [''a''] ['''', ''l''] False]"
  by (simp add: prim_defs mem_defs stat_defs link_defs run_trace_def fs6_def)

text \<open>
  C8, amended. The first block (\<open>lstat\<close>, \<open>exists\<close>, \<open>realpath\<close>, \<open>unlink\<close>) ends at
  the first call that is rejected: with that error as the result of \<open>symlink\<close> unless
  its code is \<open>ENOENT\<close>, which is swallowed. When link creation then fails with
  \<open>EEXIST\<close>, \<open>symlink\<close> is \<open>symlink\<close> run again from the beginning on the state that the
  failed attempt left, and so every time creation fails with \<open>EEXIST\<close>, with no bound
  on the number of retries; when it fails with any other error, that error is the
  result.
\<close>

theorem symlink_retries_every_collision:
  assumes "remove_existing P sr d s0 = (r1, s1)"
  shows "(\<exists>t. trace s1 = trace s0 @ t \<and> block_ok t r1)
     \<and> (case r1 of
          Inl e \<Rightarrow> symlink (Suc n) P sr d s0 = Some (Inl e, s1)
        | Inr True \<Rightarrow> symlink (Suc n) P sr d s0 = Some (Inr (), s1)
        | Inr False \<Rightarrow>
            (case create_link P sr d s1 of
               (Inr u, s2) \<Rightarrow> symlink (Suc n) P sr d s0 = Some (Inr (), s2)
             | (Inl e, s2) \<Rightarrow>
                 if code e = Some ''EEXIST''
                 then symlink (Suc n) P sr d s0 = symlink n P sr d s2
                 else symlink (Suc n) P sr d s0 = Some (Inl e, s2)))"
  using remove_existing_ok[OF assms] assms
  by (auto split: sum.splits bool.splits prod.splits)

theorem symlink_retries_every_collision_witness:
  "remove_existing racy ['''', ''a''] ['''', ''l''] (boot (fs6, 1))
     = (Inr False, \<lparr>world = (fs6, 1), trace = [Lstat ['''', ''l''], Rejected ENOENT]\<rparr>)
   \<and> symlink (Suc (Suc 0)) racy ['''', ''a''] ['''', ''l''] (boot (fs6, 1))
     = symlink (Suc 0) racy ['''', ''a''] ['''', ''l'']
         \<lparr>world = (fs6 @ [(['''', ''l''], file_node 420 [] 0)], 0),
          trace = [Lstat ['''', ''l''], Rejected ENOENT,
                   FsSymlink [''a''] ['''', ''l''] False, Rejected EEXIST]\<rparr>"
proof -
  have h: "remove_existing racy ['''', ''a''] ['''', ''l''] (boot (fs6, 1))
     = (Inr False, \<lparr>world = (fs6, 1), trace = [Lstat ['''', ''l''], Rejected ENOENT]\<rparr>)"
    by (simp add: prim_defs mem_defs stat_defs link_defs fs6_def)
  have c: "create_link racy ['''', ''a''] ['''', ''l'']
             \<lparr>world = (fs6, 1), trace = [Lstat ['''', ''l''], Rejected ENOENT]\<rparr>
     = (Inl EEXIST, \<lparr>world = (fs6 @ [(['''', ''l''], file_node 420 [] 0)], 0),
          trace = [Lstat ['''', ''l''], Rejected ENOENT,
                   FsSymlink [''a''] ['''', ''l''] False, Rejected EEXIST]\<rparr>)"
    by (simp add: prim_defs mem_defs stat_defs link_defs fs6_def)
  from symlink_retries_every_collision[OF h, of "Suc 0"] c h show ?thesis by simp
qed



text \<open>
  C10. The planner starts with the \<open>onDone\<close> of every submitted request replaced by the
  progress event for that request's destination. So in every call of \<open>copyBulk\<close>, a
  caller's function \<open>k\<close> that was submitted as the \<open>onDone\<close> of a request, and is not
  also an \<open>onFresh\<close> of a submitted request, is never called.
\<close>

theorem caller_onDone_never_invoked:
  assumes "copyBulk n P q seed s = Some (r, s')"
    and "d \<in> set q" "onDone d = Some (User k)"
    and "\<forall>d'\<in>set q. k \<notin> users (or_noop (onFresh d'))"
  shows "Called k \<notin> set (drop (length (trace s)) (trace s'))
     \<and> map onDone (queue (start_planner q seed s)) = map (\<lambda>d. Some (Progress (dest d))) q"
proof -
  have "\<forall>d\<in>set q. users (or_noop (onFresh d)) \<subseteq> UNIV - {k}" using assms(4) by auto
  from copyBulk_trace[OF assms(1) this] obtain t1 t2 t3 where
    t1: "list_all (walk_ev UNIV (UNIV - {k})) t1" and
    t2: "list_all (\<lambda>e. \<not> is_link_ev e \<and> \<not> is_start e \<and> (\<forall>j. e \<noteq> Called j)) t2" and
    t3: "list_all (\<lambda>e. \<not> is_copy_ev e \<and> \<not> is_start e \<and> (\<forall>j. e \<noteq> Called j)) t3" and
    c: "(case buildActionsForCopy n P q seed s of
            Some (Inr acts, st1) \<Rightarrow>
              trace s' = trace s @ OnStart (length q) # t1 @ OnStart (length acts) # t2 @ t3
              \<and> (r = Inr () \<longrightarrow> t2 = concat (map copy_events (filter is_file_action acts))
                                \<and> t3 = concat (map link_events (filter is_symlink_action acts)))
          | _ \<Rightarrow> trace s' = trace s @ OnStart (length q) # t1 \<and> t2 = [] \<and> t3 = [] \<and> r \<noteq> Inr ())"
    by blast
  have n1: "Called k \<notin> set t1"
    using t1 by (auto simp: list_all_iff dest: walk_ev_user)
  have n2: "Called k \<notin> set t2" "Called k \<notin> set t3"
    using t2 t3 by (auto simp: list_all_iff)
  have "Called k \<notin> set (drop (length (trace s)) (trace s'))"
    using c n1 n2 by (auto split: option.splits sum.splits prod.splits)
  moreover have "map onDone (queue (start_planner q seed s)) = map (\<lambda>d. Some (Progress (dest d))) q"
    by (simp add: start_planner_fields init_events_def comp_def)
  ultimately show ?thesis by simp
qed

theorem caller_onDone_never_invoked_witness:
  "\<exists>r s'. copyBulk (Suc (Suc (Suc 0))) memfs [req1] [] (boot fs1) = Some (r, s')
      \<and> req1 \<in> set [req1] \<and> onDone req1 = Some (User 8)
      \<and> Called 8 \<notin> set (drop (length (trace (boot fs1))) (trace s'))"
proof -
  have "\<exists>r s'. copyBulk (Suc (Suc (Suc 0))) memfs [req1] [] (boot fs1) = Some (r, s')"
    by (simp add: prim_defs mem_defs stat_defs plan_defs run_defs fs1_def req1_def Let_def
        add_parts_Nil add_parts_Cons)
  then obtain r s' where
    run: "copyBulk (Suc (Suc (Suc 0))) memfs [req1] [] (boot fs1) = Some (r, s')" by blast
  have h: "req1 \<in> set [req1]" "onDone req1 = Some (User 8)"
    "\<forall>d'\<in>set [req1]. 8 \<notin> users (or_noop (onFresh d'))"
    by (simp_all add: req1_def or_noop_def)
  from caller_onDone_never_invoked[OF run h] run h show ?thesis by blast
qed

end
